theory Spec2Isabelle
  imports Main "HOL-Library.Sublist"
begin

section \<open>Tokens, providers and containers (di-container.ts)\<close>

text \<open>
  A token is a string, a symbol or a class constructor. A symbol is identified by its
  identity (a number) and carries its description; a constructor is identified by the
  number of its class. Strings compare by content, symbols and classes by identity.
\<close>

datatype token = TString string | TSymbol nat string | TCtor nat

datatype lifetime = Singleton | Transient

text \<open>
  Instances. \<open>Given k\<close> is a value that the program supplied (a \<open>useValue\<close>);
  \<open>Created k\<close> is the object made by the \<open>k\<close>-th invocation of a factory or
  constructor, so that two invocations never yield the same object.
\<close>

datatype val = Given nat | Created nat

text \<open>
  The behaviour of user code: a constructor or factory body, applied to the resolved
  dependencies, either returns (\<open>None\<close>) or throws with a message (\<open>Some msg\<close>).
  \<open>class_inject\<close> is the static \<open>inject\<close> property (\<open>None\<close> when it is not an array),
  \<open>fn_length\<close> the \<open>length\<close> property of the factory function.
\<close>

datatype class_def =
  ClassDef (class_name: string) (class_inject: "token list option")
           (class_new: "val list \<Rightarrow> string option")

datatype factory = Factory (fn_length: nat) (fn_call: "val list \<Rightarrow> string option")

datatype provider =
    ValueProvider (provide: token) (lifetime: "lifetime option") (useValue: val)
  | ClassProvider (provide: token) (lifetime: "lifetime option") (useClass: nat)
                  (deps: "token list option")
  | FactoryProvider (provide: token) (lifetime: "lifetime option") (useFactory: factory)
                    (deps: "token list option")

text \<open>
  A container: the map of providers (every provider is stored under its own
  \<open>provide\<close> token, so the map is the list of its providers, in insertion order), the
  map of cached instances, the parent and the debug flag.
\<close>

record container =
  providers :: "provider list"
  instances :: "token \<rightharpoonup> val"
  parent :: "nat option"
  debug :: bool

text \<open>
  The world: the classes of the program, the containers by address, the next free
  address, the invocations of factories and constructors so far (which provider, which
  arguments), the console, and the next free identity for the other objects (routers
  and controller definitions).
\<close>

record world =
  classes :: "(nat \<times> class_def) list"
  heap :: "nat \<Rightarrow> container"
  next_container :: nat
  calls :: "(provider \<times> val list) list"
  console :: "string list"
  next_ref :: nat

datatype error =
    NoProvider token "token list"
  | CircularDependency "token list" token
  | InstantiateFailed token string "token list"
  | DependencyCountMismatch token nat nat "token list"
  | FactoryFailed token string "token list"
  | RegisterClassRequiresConstructor

type_synonym 'a outcome = "(error + 'a) \<times> token list \<times> world"

type_synonym resolver = "token \<Rightarrow> token list \<Rightarrow> world \<Rightarrow> val outcome option"

subsection \<open>Maps and sets of the source\<close>

fun providers_set :: "provider \<Rightarrow> provider list \<Rightarrow> provider list" where
  "providers_set p [] = [p]"
| "providers_set p (q # qs) =
     (if provide q = provide p then p # qs else q # providers_set p qs)"

definition providers_get :: "provider list \<Rightarrow> token \<Rightarrow> provider option" where
  "providers_get ps t = find (\<lambda>p. provide p = t) ps"

definition providers_has :: "provider list \<Rightarrow> token \<Rightarrow> bool" where
  "providers_has ps t = (providers_get ps t \<noteq> None)"

text \<open>The set of tokens being resolved keeps insertion order, as a JavaScript Set does.\<close>

definition set_add :: "token \<Rightarrow> token list \<Rightarrow> token list" where
  "set_add t R = (if t \<in> set R then R else R @ [t])"

definition set_delete :: "token \<Rightarrow> token list \<Rightarrow> token list" where
  "set_delete t R = removeAll t R"

subsection \<open>Type guards and names\<close>

definition isConstructorToken :: "token \<Rightarrow> bool" where
  "isConstructorToken t = (case t of TCtor k \<Rightarrow> True | _ \<Rightarrow> False)"

definition isClassProvider :: "provider \<Rightarrow> bool" where
  "isClassProvider p = (case p of ClassProvider _ _ _ _ \<Rightarrow> True | _ \<Rightarrow> False)"

definition isFactoryProvider :: "provider \<Rightarrow> bool" where
  "isFactoryProvider p = (case p of FactoryProvider _ _ _ _ \<Rightarrow> True | _ \<Rightarrow> False)"

definition isValueProvider :: "provider \<Rightarrow> bool" where
  "isValueProvider p = (case p of ValueProvider _ _ _ \<Rightarrow> True | _ \<Rightarrow> False)"

text \<open>A class that the program does not describe is the plain anonymous class.\<close>

definition class_of :: "world \<Rightarrow> nat \<Rightarrow> class_def" where
  "class_of w k =
     (case map_of (classes w) k of Some d \<Rightarrow> d | None \<Rightarrow> ClassDef [] None (\<lambda>_. None))"

definition getInjectTokens :: "world \<Rightarrow> nat \<Rightarrow> token list option" where
  "getInjectTokens w k = class_inject (class_of w k)"

definition getTokenName :: "world \<Rightarrow> token \<Rightarrow> string" where
  "getTokenName w t =
     (case t of
        TString s \<Rightarrow> s
      | TSymbol _ d \<Rightarrow> (if d = [] then ''Symbol'' else d)
      | TCtor k \<Rightarrow> (if class_name (class_of w k) = [] then ''AnonymousClass''
                    else class_name (class_of w k)))"

subsection \<open>Registration\<close>

definition nl :: string where
  "nl = [CHR 0x0A]"

definition dq :: string where
  "dq = [CHR 0x22]"

definition overwrite_warning :: "string \<Rightarrow> string" where
  "overwrite_warning tokenName =
     ''[DI Container] Warning: Overwriting existing provider for token '' @ dq @ tokenName
       @ dq @ ''. '' @ ''This may indicate a misconfiguration.''"

definition register :: "nat \<Rightarrow> provider \<Rightarrow> world \<Rightarrow> world" where
  "register c p w =
     (let this = heap w c;
          w1 = (if providers_has (providers this) (provide p) \<and> debug this
                then w\<lparr>console := console w @ [overwrite_warning (getTokenName w (provide p))]\<rparr>
                else w);
          this' = this\<lparr>providers := providers_set p (providers this),
                       instances := (case p of
                           ValueProvider _ _ v \<Rightarrow> (instances this)(provide p \<mapsto> v)
                         | _ \<Rightarrow> (instances this)(provide p := None))\<rparr>
      in w1\<lparr>heap := (heap w1)(c := this')\<rparr>)"

definition registerMany :: "nat \<Rightarrow> provider list \<Rightarrow> world \<Rightarrow> world" where
  "registerMany c ps w = fold (register c) ps w"

definition registerValue :: "nat \<Rightarrow> token \<Rightarrow> val \<Rightarrow> world \<Rightarrow> world" where
  "registerValue c t v w = register c (ValueProvider t None v) w"

definition registerClass ::
  "nat \<Rightarrow> token \<Rightarrow> nat option \<Rightarrow> token list option \<Rightarrow> lifetime option \<Rightarrow> world
     \<Rightarrow> error + world" where
  "registerClass c t useClass_opt ds lt w =
     (case (case useClass_opt of Some k \<Rightarrow> Some k
            | None \<Rightarrow> (case t of TCtor k \<Rightarrow> Some k | _ \<Rightarrow> None)) of
        None \<Rightarrow> Inl RegisterClassRequiresConstructor
      | Some k \<Rightarrow> Inr (register c (ClassProvider t lt k ds) w))"

definition registerFactory ::
  "nat \<Rightarrow> token \<Rightarrow> factory \<Rightarrow> token list option \<Rightarrow> lifetime option \<Rightarrow> world \<Rightarrow> world" where
  "registerFactory c t f ds lt w = register c (FactoryProvider t lt f ds) w"

text \<open>
  The constructor. A container is built after its parent, so the address of a parent is
  smaller than the address of its child.
\<close>

definition new_DIContainer :: "nat option \<Rightarrow> bool \<Rightarrow> world \<Rightarrow> nat \<times> world" where
  "new_DIContainer par dbg w =
     (next_container w,
      w\<lparr>heap := (heap w)(next_container w :=
             \<lparr>providers = [], instances = Map.empty, parent = par, debug = dbg\<rparr>),
        next_container := Suc (next_container w)\<rparr>)"


subsection \<open>Lookup along the parents\<close>

text \<open>
  \<open>lookupProvider\<close> and \<open>has\<close> search the container and then its parent. The parent
  field is read-only and refers to a container built earlier; the search stops at a
  parent address that is not smaller, which no container built by the constructor has.
\<close>

function lookupProvider :: "world \<Rightarrow> nat \<Rightarrow> token \<Rightarrow> (provider \<times> nat) option" where
  "lookupProvider w c t =
     (case providers_get (providers (heap w c)) t of
        Some p \<Rightarrow> Some (p, c)
      | None \<Rightarrow> (case parent (heap w c) of
                  None \<Rightarrow> None
                | Some q \<Rightarrow> if q < c then lookupProvider w q t else None))"
  by pat_completeness auto
termination
  by (relation "measure (\<lambda>(w, c, t). c)") auto

declare lookupProvider.simps [simp del]

function has :: "world \<Rightarrow> nat \<Rightarrow> token \<Rightarrow> bool" where
  "has w c t =
     (providers_has (providers (heap w c)) t
      \<or> (case parent (heap w c) of
            None \<Rightarrow> False
          | Some q \<Rightarrow> if q < c then has w q t else False))"
  by pat_completeness auto
termination
  by (relation "measure (\<lambda>(w, c, t). c)") auto

declare has.simps [simp del]

subsection \<open>Resolution\<close>

text \<open>
  \<open>resolveDependencies\<close> maps \<open>this.resolve\<close> over the dependency tokens, from left to
  right; the first dependency that throws ends the call. The parameter \<open>rslv\<close> is
  \<open>this.resolve\<close>.
\<close>

fun resolveDependencies ::
  "resolver \<Rightarrow> token list \<Rightarrow> token list \<Rightarrow> world \<Rightarrow> val list outcome option" where
  "resolveDependencies rslv [] R w = Some (Inr [], R, w)"
| "resolveDependencies rslv (d # ds) R w =
     (case rslv d R w of
        None \<Rightarrow> None
      | Some (Inl e, R1, w1) \<Rightarrow> Some (Inl e, R1, w1)
      | Some (Inr v, R1, w1) \<Rightarrow>
          (case resolveDependencies rslv ds R1 w1 of
             None \<Rightarrow> None
           | Some (Inl e, R2, w2) \<Rightarrow> Some (Inl e, R2, w2)
           | Some (Inr vs, R2, w2) \<Rightarrow> Some (Inr (v # vs), R2, w2)))"

definition declaredDeps :: "world \<Rightarrow> provider \<Rightarrow> token list" where
  "declaredDeps w p =
     (case p of
        ValueProvider _ _ _ \<Rightarrow> []
      | ClassProvider _ _ k ds \<Rightarrow>
          (case ds of Some d \<Rightarrow> d
           | None \<Rightarrow> (case getInjectTokens w k of Some d \<Rightarrow> d | None \<Rightarrow> []))
      | FactoryProvider _ _ _ ds \<Rightarrow> (case ds of Some d \<Rightarrow> d | None \<Rightarrow> []))"

text \<open>
  \<open>invoke\<close> is the call of the constructor or factory: the invocation is recorded, and
  the object it returns is the one of this invocation.
\<close>

definition invoke ::
  "provider \<Rightarrow> (val list \<Rightarrow> string option) \<Rightarrow> val list \<Rightarrow> world \<Rightarrow> (string + val) \<times> world" where
  "invoke p body vs w =
     (case body vs of
        Some msg \<Rightarrow> Inl msg
      | None \<Rightarrow> Inr (Created (length (calls w))),
      w\<lparr>calls := calls w @ [(p, vs)]\<rparr>)"

definition instantiateProvider ::
  "resolver \<Rightarrow> provider \<Rightarrow> token list \<Rightarrow> world \<Rightarrow> val outcome option" where
  "instantiateProvider rslv p R w =
     (case p of
        ClassProvider tok lt k ds \<Rightarrow>
          (case resolveDependencies rslv (declaredDeps w p) R w of
             None \<Rightarrow> None
           | Some (Inl e, R1, w1) \<Rightarrow> Some (Inl e, R1, w1)
           | Some (Inr vs, R1, w1) \<Rightarrow>
               (case invoke p (class_new (class_of w1 k)) vs w1 of
                  (Inl msg, w2) \<Rightarrow>
                    Some (Inl (InstantiateFailed tok msg (declaredDeps w p)), R1, w2)
                | (Inr v, w2) \<Rightarrow> Some (Inr v, R1, w2)))
      | FactoryProvider tok lt f ds \<Rightarrow>
          (case resolveDependencies rslv (declaredDeps w p) R w of
             None \<Rightarrow> None
           | Some (Inl e, R1, w1) \<Rightarrow> Some (Inl e, R1, w1)
           | Some (Inr vs, R1, w1) \<Rightarrow>
               if fn_length f > 0 \<and> length vs \<noteq> fn_length f
               then Some (Inl (DependencyCountMismatch tok (fn_length f) (length vs)
                                 (declaredDeps w p)), R1, w1)
               else (case invoke p (fn_call f) vs w1 of
                       (Inl msg, w2) \<Rightarrow>
                         Some (Inl (FactoryFailed tok msg (declaredDeps w p)), R1, w2)
                     | (Inr v, w2) \<Rightarrow> Some (Inr v, R1, w2)))
      | ValueProvider tok lt v \<Rightarrow> Some (Inr v, R, w))"

definition lifetime_of :: "provider \<Rightarrow> lifetime" where
  "lifetime_of p = (case lifetime p of Some l \<Rightarrow> l | None \<Rightarrow> Singleton)"

definition cached_singleton :: "world \<Rightarrow> nat \<Rightarrow> provider \<Rightarrow> val option" where
  "cached_singleton w owner p =
     (if lifetime_of p = Singleton then instances (heap w owner) (provide p) else None)"

definition instances_set :: "nat \<Rightarrow> token \<Rightarrow> val \<Rightarrow> world \<Rightarrow> world" where
  "instances_set owner t v w =
     w\<lparr>heap := (heap w)(owner := (heap w owner)\<lparr>instances := (instances (heap w owner))(t \<mapsto> v)\<rparr>)\<rparr>"

text \<open>
  \<open>resolve\<close>, on the container \<open>c\<close> (\<open>this\<close>). The recursion of the source has no
  bound of its own: the first argument bounds its depth, and \<open>None\<close> is the answer of a
  call that needs more.
\<close>

primrec resolve :: "nat \<Rightarrow> nat \<Rightarrow> token \<Rightarrow> token list \<Rightarrow> world \<Rightarrow> val outcome option" where
  "resolve 0 c t R w = None"
| "resolve (Suc n) c t R w =
     (case lookupProvider w c t of
        None \<Rightarrow>
          (case t of
             TCtor k \<Rightarrow> resolve n c t R (register c (ClassProvider t None k None) w)
           | _ \<Rightarrow> Some (Inl (NoProvider t R), R, w))
      | Some (p, owner) \<Rightarrow>
          (case p of
             ValueProvider _ _ v \<Rightarrow> Some (Inr v, R, w)
           | _ \<Rightarrow>
              (case cached_singleton w owner p of
                 Some v \<Rightarrow> Some (Inr v, R, w)
               | None \<Rightarrow>
                  if provide p \<in> set R
                  then Some (Inl (CircularDependency R (provide p)), R, w)
                  else
                    (case instantiateProvider (resolve n c) p (set_add (provide p) R) w of
                       None \<Rightarrow> None
                     | Some (Inr v, R1, w1) \<Rightarrow>
                         Some (Inr v, set_delete (provide p) R1,
                               if lifetime_of p = Singleton
                               then instances_set owner (provide p) v w1 else w1)
                     | Some (Inl e, R1, w1) \<Rightarrow>
                         Some (Inl e, set_delete (provide p) R1, w1)))))"

text \<open>
  \<open>get\<close> starts a resolution with a new, empty set of tokens being resolved. (An
  Injectable passed as the token stands for its own symbol token.)
\<close>

definition get :: "nat \<Rightarrow> nat \<Rightarrow> token \<Rightarrow> world \<Rightarrow> ((error + val) \<times> world) option" where
  "get n c t w =
     (case resolve n c t [] w of None \<Rightarrow> None | Some (r, R, w') \<Rightarrow> Some (r, w'))"

subsection \<open>Error messages\<close>

fun show_nat :: "nat \<Rightarrow> string" where
  "show_nat n =
     (if n < 10 then [''0123456789'' ! n]
      else show_nat (n div 10) @ [''0123456789'' ! (n mod 10)])"

declare show_nat.simps [simp del]

fun join :: "string \<Rightarrow> string list \<Rightarrow> string" where
  "join sep [] = []"
| "join sep [x] = x"
| "join sep (x # y # ys) = x @ sep @ join sep (y # ys)"

definition no_provider_message :: "string list \<Rightarrow> string \<Rightarrow> string" where
  "no_provider_message resolvingNames tokenName =
     ''[DI Container] No provider found for '' @ dq @ tokenName @ dq @ ''.'' @ nl
     @ (if length resolvingNames > 0
        then ''Dependency chain: '' @ join '' -> '' resolvingNames @ '' -> '' @ tokenName @ nl
        else [])
     @ ''Make sure you've added it to your module's providers array:'' @ nl
     @ ''  providers: ['' @ tokenName @ ''.provider]''"

definition circular_message :: "string list \<Rightarrow> string \<Rightarrow> string" where
  "circular_message resolvingNames tokenName =
     ''[DI Container] Circular dependency detected!'' @ nl
     @ ''Dependency chain: '' @ join '' -> '' resolvingNames @ '' -> '' @ tokenName @ nl @ nl
     @ ''This means these services depend on each other in a circle:'' @ nl
     @ join nl (map (\<lambda>(i, name). ''  '' @ show_nat (i + 1) @ ''. '' @ name)
                    (enumerate 0 resolvingNames)) @ nl
     @ ''  '' @ show_nat (length resolvingNames + 1) @ ''. '' @ tokenName
     @ '' (tries to depend on step 1)'' @ nl @ nl
     @ ''To fix this, consider:'' @ nl
     @ ''  - Using lazy injection (getter function)'' @ nl
     @ ''  - Extracting shared logic to a separate service'' @ nl
     @ ''  - Restructuring your dependencies''"

definition error_message :: "world \<Rightarrow> error \<Rightarrow> string" where
  "error_message w e =
     (case e of
        NoProvider t R \<Rightarrow> no_provider_message (map (getTokenName w) R) (getTokenName w t)
      | CircularDependency R t \<Rightarrow>
          circular_message (map (getTokenName w) R) (getTokenName w t)
      | InstantiateFailed t msg ds \<Rightarrow>
          ''[DI Container] Failed to instantiate '' @ dq @ getTokenName w t @ dq @ ''.'' @ nl
          @ ''Error: '' @ msg @ nl
          @ ''Dependencies: ['' @ join '', '' (map (getTokenName w) ds) @ '']''
      | DependencyCountMismatch t expectedParams provided ds \<Rightarrow>
          ''[DI Container] Dependency count mismatch for '' @ dq @ getTokenName w t @ dq
          @ ''.'' @ nl
          @ ''Factory function expects '' @ show_nat expectedParams
          @ '' parameter(s), but '' @ show_nat provided @ '' dependencies were provided.'' @ nl
          @ ''Provided dependencies: ['' @ join '', '' (map (getTokenName w) ds) @ '']''
          @ nl @ nl
          @ ''Make sure your deps array matches your factory function parameters:'' @ nl
          @ ''  defineInjectable('' @ nl
          @ ''    (dep1, dep2) => ({ ... }),'' @ nl
          @ ''    [service1, service2]  // '' @ [CHR 0xC3, CHR 0xA2, CHR 0xE2, CHR 0x80, CHR 0xA0]
          @ '' Must match parameter count'' @ nl
          @ ''  )''
      | FactoryFailed t msg ds \<Rightarrow>
          ''[DI Container] Failed to create '' @ dq @ getTokenName w t @ dq
          @ '' from factory.'' @ nl
          @ ''Error: '' @ msg @ nl
          @ ''Dependencies: ['' @ join '', '' (map (getTokenName w) ds) @ '']''
      | RegisterClassRequiresConstructor \<Rightarrow>
          ''registerClass requires a constructor token or useClass value'')"

section \<open>Controllers, modules and the app\<close>

text \<open>
  A controller definition is the object \<open>{prefix, app}\<close> that a controller factory
  returns: \<open>ctl_ref\<close> is the identity of the object, \<open>route_prefix\<close> its
  \<open>prefix\<close> field and \<open>app\<close> the identity of its router. The setup callback of
  a controller is user code; of what it does, the model keeps the tokens that it
  resolves from the container while it runs.
\<close>

datatype controller = ControllerDefinition (ctl_ref: nat) (route_prefix: string) (app: nat)

datatype controller_factory = ControllerFactory (cf_prefix: string) (cf_setup: "token list")

datatype module_def =
  ModuleDefinition (mod_controllers: "controller list") (mod_imports: "module_def list")
                   (mod_exports: "token list") (mod_providers: "provider list")
                   (mod_container: nat)

record module_config =
  cfg_controllers :: "controller_factory list"
  cfg_imports :: "module_def list"
  cfg_exports :: "token list"
  cfg_providers :: "provider list"

type_synonym 'a result = "((error + 'a) \<times> world) option"

subsection \<open>define-controller.ts: the factory\<close>

fun setup_gets :: "nat \<Rightarrow> nat \<Rightarrow> token list \<Rightarrow> world \<Rightarrow> unit result" where
  "setup_gets n c [] w = Some (Inr (), w)"
| "setup_gets n c (t # ts) w =
     (case get n c t w of
        None \<Rightarrow> None
      | Some (Inl e, w1) \<Rightarrow> Some (Inl e, w1)
      | Some (Inr v, w1) \<Rightarrow> setup_gets n c ts w1)"

definition controller_factory_call ::
  "nat \<Rightarrow> controller_factory \<Rightarrow> nat \<Rightarrow> world \<Rightarrow> controller result" where
  "controller_factory_call n cf c w =
     (let a = next_ref w; w0 = w\<lparr>next_ref := Suc (next_ref w)\<rparr> in
      case setup_gets n c (cf_setup cf) w0 of
        None \<Rightarrow> None
      | Some (Inl e, w1) \<Rightarrow> Some (Inl e, w1)
      | Some (Inr u, w1) \<Rightarrow>
          Some (Inr (ControllerDefinition (next_ref w1) (cf_prefix cf) a),
                w1\<lparr>next_ref := Suc (next_ref w1)\<rparr>))"

subsection \<open>define-module.ts\<close>

text \<open>The inner loop over the exports of one imported module.\<close>

fun import_exports :: "nat \<Rightarrow> nat \<Rightarrow> nat \<Rightarrow> token list \<Rightarrow> world \<Rightarrow> unit result" where
  "import_exports n c ic [] w = Some (Inr (), w)"
| "import_exports n c ic (t # ts) w =
     (if has w ic t
      then (case get n ic t w of
              None \<Rightarrow> None
            | Some (Inl e, w1) \<Rightarrow> Some (Inl e, w1)
            | Some (Inr v, w1) \<Rightarrow> import_exports n c ic ts (registerValue c t v w1))
      else import_exports n c ic ts w)"

text \<open>The outer loop over the imported modules.\<close>

fun import_modules :: "nat \<Rightarrow> nat \<Rightarrow> module_def list \<Rightarrow> world \<Rightarrow> unit result" where
  "import_modules n c [] w = Some (Inr (), w)"
| "import_modules n c (m # ms) w =
     (case import_exports n c (mod_container m) (mod_exports m) w of
        None \<Rightarrow> None
      | Some (Inl e, w1) \<Rightarrow> Some (Inl e, w1)
      | Some (Inr u, w1) \<Rightarrow> import_modules n c ms w1)"

fun instantiate_controllers ::
  "nat \<Rightarrow> nat \<Rightarrow> controller_factory list \<Rightarrow> world \<Rightarrow> controller list result" where
  "instantiate_controllers n c [] w = Some (Inr [], w)"
| "instantiate_controllers n c (cf # cfs) w =
     (case controller_factory_call n cf c w of
        None \<Rightarrow> None
      | Some (Inl e, w1) \<Rightarrow> Some (Inl e, w1)
      | Some (Inr x, w1) \<Rightarrow>
          (case instantiate_controllers n c cfs w1 of
             None \<Rightarrow> None
           | Some (Inl e, w2) \<Rightarrow> Some (Inl e, w2)
           | Some (Inr xs, w2) \<Rightarrow> Some (Inr (x # xs), w2)))"

definition defineModule :: "nat \<Rightarrow> module_config \<Rightarrow> world \<Rightarrow> module_def result" where
  "defineModule n config w =
     (case new_DIContainer None False w of
        (c, w0) \<Rightarrow>
          (case import_modules n c (cfg_imports config) w0 of
             None \<Rightarrow> None
           | Some (Inl e, w1) \<Rightarrow> Some (Inl e, w1)
           | Some (Inr u, w1) \<Rightarrow>
               (case instantiate_controllers n c (cfg_controllers config)
                       (registerMany c (cfg_providers config) w1) of
                  None \<Rightarrow> None
                | Some (Inl e, w3) \<Rightarrow> Some (Inl e, w3)
                | Some (Inr cs, w3) \<Rightarrow>
                    Some (Inr (ModuleDefinition cs (cfg_imports config) (cfg_exports config)
                                 (cfg_providers config) c), w3))))"

subsection \<open>create-app.ts\<close>

text \<open>
  The router of the external library, as far as \<open>createApp\<close> uses it: the options it
  was built with, the middleware added with \<open>use\<close> and the routers mounted with
  \<open>route\<close>, each in call order.
\<close>

record hono =
  hono_options :: "nat option"
  hono_use :: "(string \<times> nat) list"
  hono_route :: "(string \<times> nat) list"

datatype app_options =
    NoOptions
  | CreateAppOptions (opt_hono: "nat option") (opt_middleware: "nat list option")
  | HonoOptions nat

definition controllers_add :: "controller \<Rightarrow> controller list \<Rightarrow> controller list" where
  "controllers_add x S = (if x \<in> set S then S else S @ [x])"

fun collectControllers :: "module_def \<Rightarrow> controller list \<Rightarrow> controller list" where
  "collectControllers (ModuleDefinition cs ims es ps c) allControllers =
     fold collectControllers ims (fold controllers_add cs allControllers)"

definition createApp :: "module_def \<Rightarrow> app_options \<Rightarrow> hono" where
  "createApp rootModule options =
     (let honoOptions = (case options of
                           NoOptions \<Rightarrow> None
                         | CreateAppOptions h m \<Rightarrow> h
                         | HonoOptions h \<Rightarrow> Some h);
          middleware = (case options of CreateAppOptions h (Some m) \<Rightarrow> m | _ \<Rightarrow> [])
      in \<lparr>hono_options = honoOptions,
          hono_use = map (\<lambda>mw. (''*'', mw)) middleware,
          hono_route = map (\<lambda>x. (route_prefix x, app x)) (collectControllers rootModule [])\<rparr>)"

text \<open>The controllers of a module and of every module reachable through imports.\<close>

fun tree_controllers :: "module_def \<Rightarrow> controller set" where
  "tree_controllers (ModuleDefinition cs ims es ps c) =
     set cs \<union> (\<Union> (set (map tree_controllers ims)))"

section \<open>Relations between worlds\<close>

text \<open>
  \<open>stable w w'\<close>: from \<open>w\<close> to \<open>w'\<close> the classes and the parents are the same, and
  every provider that a lookup finds in \<open>w\<close> is found in \<open>w'\<close>, with the same owner.
\<close>

definition stable :: "world \<Rightarrow> world \<Rightarrow> bool" where
  "stable w w' \<longleftrightarrow>
     classes w' = classes w
     \<and> (\<forall>x. parent (heap w' x) = parent (heap w x))
     \<and> (\<forall>c t x. lookupProvider w c t = Some x \<longrightarrow> lookupProvider w' c t = Some x)"

text \<open>
  The invocations recorded for the providers of a token, and \<open>kept t w w'\<close>: from
  \<open>w\<close> to \<open>w'\<close> no container has changed its cached instance for \<open>t\<close> and no
  provider of \<open>t\<close> has been invoked.
\<close>

definition invocations :: "token \<Rightarrow> world \<Rightarrow> (provider \<times> val list) list" where
  "invocations t w = filter (\<lambda>e. provide (fst e) = t) (calls w)"

definition kept :: "token \<Rightarrow> world \<Rightarrow> world \<Rightarrow> bool" where
  "kept t w w' \<longleftrightarrow>
     (\<forall>x. instances (heap w' x) t = instances (heap w x) t)
     \<and> invocations t w' = invocations t w"

text \<open>
  \<open>settled w c R t\<close>: resolving \<open>t\<close> on the container \<open>c\<close>, with \<open>R\<close> being
  resolved, ends at once: its provider is a value, or a singleton with a cached
  instance, or \<open>t\<close> is itself being resolved.
\<close>

definition settled :: "world \<Rightarrow> nat \<Rightarrow> token list \<Rightarrow> token \<Rightarrow> bool" where
  "settled w c R t \<longleftrightarrow>
     (case lookupProvider w c t of
        None \<Rightarrow> False
      | Some (p, owner) \<Rightarrow>
          isValueProvider p \<or> cached_singleton w owner p \<noteq> None \<or> t \<in> set R)"

text \<open>
  The parts of \<open>instantiateProvider\<close> that its two branches share: the body that is
  invoked, the check of the parameter count (factories only) and the errors.
\<close>

definition provider_body :: "world \<Rightarrow> provider \<Rightarrow> val list \<Rightarrow> string option" where
  "provider_body w p =
     (case p of
        ClassProvider _ _ k _ \<Rightarrow> class_new (class_of w k)
      | FactoryProvider _ _ f _ \<Rightarrow> fn_call f
      | ValueProvider _ _ _ \<Rightarrow> (\<lambda>_. None))"

definition count_mismatch :: "provider \<Rightarrow> val list \<Rightarrow> bool" where
  "count_mismatch p vs =
     (case p of
        FactoryProvider _ _ f _ \<Rightarrow> fn_length f > 0 \<and> length vs \<noteq> fn_length f
      | _ \<Rightarrow> False)"

definition mismatch_error :: "world \<Rightarrow> provider \<Rightarrow> val list \<Rightarrow> error" where
  "mismatch_error w p vs =
     DependencyCountMismatch (provide p) (fn_length (useFactory p)) (length vs)
       (declaredDeps w p)"

definition invoke_failure :: "world \<Rightarrow> provider \<Rightarrow> string \<Rightarrow> error" where
  "invoke_failure w p msg =
     (case p of
        ClassProvider tok _ _ _ \<Rightarrow> InstantiateFailed tok msg (declaredDeps w p)
      | _ \<Rightarrow> FactoryFailed (provide p) msg (declaredDeps w p))"


text \<open>The ancestors of a container, nearest first.\<close>

function ancestors :: "world \<Rightarrow> nat \<Rightarrow> nat list" where
  "ancestors w c =
     (case parent (heap w c) of
        None \<Rightarrow> []
      | Some q \<Rightarrow> if q < c then q # ancestors w q else [])"
  by pat_completeness auto
termination
  by (relation "measure (\<lambda>(w, c). c)") auto

declare ancestors.simps [simp del]

section \<open>Dependency declarations\<close>

text \<open>
  The provider that a resolution of \<open>t\<close> on the container \<open>c\<close> works with: the one
  that the lookup finds, or, for a constructor token without a provider, the class
  provider that \<open>resolve\<close> registers for it. \<open>deps_of\<close> are its declared
  dependencies, and \<open>depends\<close> is the relation between a token and each of them.
\<close>

definition effective :: "world \<Rightarrow> nat \<Rightarrow> token \<Rightarrow> provider option" where
  "effective w c t =
     (case lookupProvider w c t of
        Some (p, owner) \<Rightarrow> Some p
      | None \<Rightarrow> (case t of TCtor k \<Rightarrow> Some (ClassProvider t None k None) | _ \<Rightarrow> None))"

definition deps_of :: "world \<Rightarrow> nat \<Rightarrow> token \<Rightarrow> token list" where
  "deps_of w c t = (case effective w c t of Some p \<Rightarrow> declaredDeps w p | None \<Rightarrow> [])"

definition depends :: "world \<Rightarrow> nat \<Rightarrow> (token \<times> token) set" where
  "depends w c = {(t, d). d \<in> set (deps_of w c t)}"


definition uncached :: "world \<Rightarrow> nat \<Rightarrow> token \<Rightarrow> bool" where
  "uncached w c t \<longleftrightarrow>
     (case lookupProvider w c t of
        None \<Rightarrow> True
      | Some (p, owner) \<Rightarrow> cached_singleton w owner p = None)"

definition uncached_depends :: "world \<Rightarrow> nat \<Rightarrow> (token \<times> token) set" where
  "uncached_depends w c = {(a, b). (a, b) \<in> depends w c \<and> uncached w c a \<and> uncached w c b}"

definition leads_to_uncached_cycle :: "world \<Rightarrow> nat \<Rightarrow> token \<Rightarrow> bool" where
  "leads_to_uncached_cycle w c t \<longleftrightarrow>
     (\<exists>x. (t, x) \<in> (uncached_depends w c)\<^sup>* \<and> (x, x) \<in> (uncached_depends w c)\<^sup>+)"

text \<open>\<open>is_path r xs\<close>: each element of \<open>xs\<close> is related to the next one.\<close>

fun is_path :: "('a \<times> 'a) set \<Rightarrow> 'a list \<Rightarrow> bool" where
  "is_path r [] \<longleftrightarrow> True"
| "is_path r [x] \<longleftrightarrow> True"
| "is_path r (x # y # ys) \<longleftrightarrow> (x, y) \<in> r \<and> is_path r (y # ys)"

text \<open>
  \<open>first_deps w c ts t\<close>: each token of \<open>ts\<close> has a class or factory provider
  without a cached instance, whose first declared dependency is the next token of
  \<open>ts\<close>, and \<open>t\<close> for the last token of \<open>ts\<close>.
\<close>

fun first_deps :: "world \<Rightarrow> nat \<Rightarrow> token list \<Rightarrow> token \<Rightarrow> bool" where
  "first_deps w c [] t = True"
| "first_deps w c (a # as) t =
     ((case lookupProvider w c a of
         None \<Rightarrow> False
       | Some (p, owner) \<Rightarrow>
           \<not> isValueProvider p \<and> cached_singleton w owner p = None
           \<and> take 1 (declaredDeps w p) = [hd (as @ [t])])
      \<and> first_deps w c as t)"


text \<open>
  The tokens that the containers up to \<open>c\<close> and the classes mention: the tokens of the
  providers, their declared dependencies and the \<open>inject\<close> tokens of the classes.
\<close>

definition mentioned :: "world \<Rightarrow> nat \<Rightarrow> token set" where
  "mentioned w c =
     (\<Union>x \<in> {..c}. \<Union>p \<in> set (providers (heap w x)). insert (provide p) (set (declaredDeps w p)))
     \<union> (\<Union>d \<in> snd ` set (classes w). case class_inject d of Some ds \<Rightarrow> set ds | None \<Rightarrow> {})"

text \<open>
  \<open>same_deps c w w'\<close>: the classes and the providers that resolutions on \<open>c\<close> work
  with are the same in \<open>w\<close> and \<open>w'\<close>. \<open>cycle_safe c w0 w\<close>: moreover no token that
  leads to an uncached cycle in \<open>w0\<close> has a cached instance in \<open>w\<close>.
\<close>

definition same_deps :: "nat \<Rightarrow> world \<Rightarrow> world \<Rightarrow> bool" where
  "same_deps c w w' \<longleftrightarrow> classes w' = classes w \<and> effective w' c = effective w c"


section \<open>Instances that containers share\<close>

text \<open>
  \<open>holds w c t v\<close>: the container \<open>c\<close> holds the instance \<open>v\<close> of \<open>t\<close>: the
  provider that a lookup from \<open>c\<close> finds is the value \<open>v\<close>, or a singleton whose
  cached instance is \<open>v\<close>. \<open>shared w c t\<close>: that provider is a value or a singleton.
\<close>

definition holds :: "world \<Rightarrow> nat \<Rightarrow> token \<Rightarrow> val \<Rightarrow> bool" where
  "holds w c t v =
     (case lookupProvider w c t of
        None \<Rightarrow> False
      | Some (p, owner) \<Rightarrow>
          if isValueProvider p then useValue p = v else cached_singleton w owner p = Some v)"

definition shared :: "world \<Rightarrow> nat \<Rightarrow> token \<Rightarrow> bool" where
  "shared w c t =
     (case lookupProvider w c t of
        None \<Rightarrow> False
      | Some (p, owner) \<Rightarrow> isValueProvider p \<or> lifetime_of p = Singleton)"

text \<open>
  \<open>retains w w'\<close>: every instance that a container has cached in \<open>w\<close> for a token it
  has a provider for is still cached in \<open>w'\<close>.
\<close>

definition retains :: "world \<Rightarrow> world \<Rightarrow> bool" where
  "retains w w' \<longleftrightarrow>
     (\<forall>x t v. providers_has (providers (heap w x)) t \<longrightarrow> instances (heap w x) t = Some v
        \<longrightarrow> instances (heap w' x) t = Some v)"

text \<open>
  \<open>frame c w w'\<close>: what a resolution on the container \<open>c\<close> leaves alone from
  \<open>w\<close> to \<open>w'\<close>: the lookups, the cached instances, the containers built after
  \<open>c\<close>, and the providers of every token that is not a constructor.
\<close>

definition frame :: "nat \<Rightarrow> world \<Rightarrow> world \<Rightarrow> bool" where
  "frame c w w' \<longleftrightarrow>
     stable w w' \<and> retains w w'
     \<and> (\<forall>x. c < x \<longrightarrow> heap w' x = heap w x)
     \<and> (\<forall>u x. \<not> isConstructorToken u \<longrightarrow>
           providers_get (providers (heap w' x)) u = providers_get (providers (heap w x)) u)"

text \<open>
  \<open>lower c w w'\<close>: from \<open>w\<close> to \<open>w'\<close> the containers built before \<open>c\<close> keep the
  providers that their lookups find and the instances that they hold.
\<close>

definition lower :: "nat \<Rightarrow> world \<Rightarrow> world \<Rightarrow> bool" where
  "lower c w w' \<longleftrightarrow>
     (\<forall>d t x. d < c \<longrightarrow> lookupProvider w d t = Some x \<longrightarrow> lookupProvider w' d t = Some x)
     \<and> (\<forall>d t v. d < c \<longrightarrow> holds w d t v \<longrightarrow> holds w' d t v)"

text \<open>
  \<open>imported w c ic t\<close>: the container \<open>c\<close> has itself a value provider of \<open>t\<close>, as
  \<open>registerValue\<close> makes it, and its value is the instance that the container \<open>ic\<close>
  holds.
\<close>

definition imported :: "world \<Rightarrow> nat \<Rightarrow> nat \<Rightarrow> token \<Rightarrow> bool" where
  "imported w c ic t =
     (case providers_get (providers (heap w c)) t of
        None \<Rightarrow> False
      | Some p \<Rightarrow> p = ValueProvider t None (useValue p) \<and> holds w ic t (useValue p))"

text \<open>The tokens that the own providers of a module provide.\<close>

definition provided_tokens :: "provider list \<Rightarrow> token set" where
  "provided_tokens ps = provide ` set ps"

section \<open>Example programs\<close>

definition empty_container :: container where
  "empty_container = \<lparr>providers = [], instances = Map.empty, parent = None, debug = False\<rparr>"

definition world0 :: world where
  "world0 = \<lparr>classes = [], heap = (\<lambda>_. empty_container), next_container = 0,
              calls = [], console = [], next_ref = 0\<rparr>"

definition returns :: "val list \<Rightarrow> string option" where
  "returns vs = None"

text \<open>
  One container and the class \<open>Mailer\<close>, whose \<open>inject\<close> names a symbol that has no
  provider; the class is registered, and so is the factory App, which depends on it.
\<close>

definition nested_app :: provider where
  "nested_app = FactoryProvider (TString ''App'') None (Factory 1 returns) (Some [TCtor 6])"

definition nested_mailer :: provider where
  "nested_mailer = ClassProvider (TCtor 6) None 6 None"

definition world_nested :: world where
  "world_nested =
     registerMany 0 [nested_app, nested_mailer]
       ((snd (new_DIContainer None False world0))
          \<lparr>classes := [(6, ClassDef ''Mailer'' (Some [TSymbol 4 ''MailConfig'']) returns)]\<rparr>)"

text \<open>
  A module tree in which the module of the users controller is imported twice: by the
  root module and by the posts module.
\<close>

definition users_module :: module_def where
  "users_module = ModuleDefinition [ControllerDefinition 1 ''/users'' 0] [] [] [] 0"

definition posts_module :: module_def where
  "posts_module = ModuleDefinition [ControllerDefinition 3 ''/posts'' 2] [users_module] [] [] 1"

definition app_module :: module_def where
  "app_module = ModuleDefinition [] [users_module, posts_module] [] [] 2"

text \<open>A module with one factory provider and one controller that resolves nothing.\<close>

definition user_service_provider :: provider where
  "user_service_provider =
     FactoryProvider (TSymbol 1 ''UserService'') None (Factory 0 returns) None"

definition lazy_config :: module_config where
  "lazy_config =
     \<lparr>cfg_controllers = [ControllerFactory ''/users'' []], cfg_imports = [],
      cfg_exports = [], cfg_providers = [user_service_provider]\<rparr>"

definition lazy_world :: world where
  "lazy_world =
     (register 0 user_service_provider (snd (new_DIContainer None False world0)))
       \<lparr>next_ref := 2\<rparr>"

definition lazy_world1 :: world where
  "lazy_world1 =
     instances_set 0 (TSymbol 1 ''UserService'') (Created 0)
       (lazy_world\<lparr>calls := [(user_service_provider, [])]\<rparr>)"





















text \<open>
  An empty container and two classes: \<open>Logger\<close> without an \<open>inject\<close> property, and
  \<open>Mailer\<close>, whose \<open>inject\<close> names a token that has no provider.
\<close>

definition world_classes :: world where
  "world_classes =
     (snd (new_DIContainer None False world0))
       \<lparr>classes := [(5, ClassDef ''Logger'' None returns),
                    (6, ClassDef ''Mailer'' (Some [TString ''MAIL_CONFIG'']) returns)]\<rparr>"

definition logger_provider :: provider where
  "logger_provider = ClassProvider (TCtor 5) None 5 None"

definition mailer_provider :: provider where
  "mailer_provider = ClassProvider (TCtor 6) None 6 None"

definition world_logger :: world where
  "world_logger =
     instances_set 0 (TCtor 5) (Created 0)
       ((register 0 logger_provider world_classes)\<lparr>calls := [(logger_provider, [])]\<rparr>)"
















text \<open>
  A module that exports a singleton service and a transient service and keeps a value
  to itself, the world after \<open>defineModule\<close> has built it, a module that imports it,
  and the world after \<open>defineModule\<close> has built that one.
\<close>

definition db_provider :: provider where
  "db_provider = FactoryProvider (TString ''DB'') None (Factory 0 returns) None"

definition request_id_provider :: provider where
  "request_id_provider =
     FactoryProvider (TString ''REQUEST_ID'') (Some Transient) (Factory 0 returns) None"

definition secret_provider :: provider where
  "secret_provider = ValueProvider (TString ''SECRET'') None (Given 0)"

definition shared_config :: module_config where
  "shared_config =
     \<lparr>cfg_controllers = [], cfg_imports = [],
      cfg_exports = [TString ''DB'', TString ''REQUEST_ID''],
      cfg_providers = [db_provider, request_id_provider, secret_provider]\<rparr>"

definition shared_module :: module_def where
  "shared_module =
     ModuleDefinition [] [] [TString ''DB'', TString ''REQUEST_ID'']
       [db_provider, request_id_provider, secret_provider] 0"

definition world_shared :: world where
  "world_shared =
     registerMany 0 [db_provider, request_id_provider, secret_provider]
       (snd (new_DIContainer None False world0))"

definition feature_config :: module_config where
  "feature_config =
     \<lparr>cfg_controllers = [], cfg_imports = [shared_module], cfg_exports = [],
      cfg_providers = []\<rparr>"

definition feature_module :: module_def where
  "feature_module = ModuleDefinition [] [shared_module] [] [] 1"

definition world_feature :: world where
  "world_feature =
     registerValue 1 (TString ''REQUEST_ID'') (Created 1)
       ((registerValue 1 (TString ''DB'') (Created 0)
           (instances_set 0 (TString ''DB'') (Created 0)
              ((snd (new_DIContainer None False world_shared))
                 \<lparr>calls := [(db_provider, [])]\<rparr>)))
        \<lparr>calls := [(db_provider, []), (request_id_provider, [])]\<rparr>)"

text \<open>
  A module that imports the same module and has providers of its own for the exported
  token DB and for the token SECRET, which the imported module does not export.
\<close>

definition own_db :: provider where
  "own_db = ValueProvider (TString ''DB'') None (Given 7)"

definition own_secret :: provider where
  "own_secret = ValueProvider (TString ''SECRET'') None (Given 8)"

definition override_config :: module_config where
  "override_config =
     \<lparr>cfg_controllers = [], cfg_imports = [shared_module], cfg_exports = [],
      cfg_providers = [own_db, own_secret]\<rparr>"

definition override_module :: module_def where
  "override_module = ModuleDefinition [] [shared_module] [] [own_db, own_secret] 1"

definition world_override :: world where
  "world_override = registerMany 1 [own_db, own_secret] world_feature"

section \<open>Properties of the container\<close>

lemma has_iff_lookup: "has w c t \<longleftrightarrow> lookupProvider w c t \<noteq> None"
proof (induction w c t rule: lookupProvider.induct)
  case (1 w c t)
  show ?case
    using 1
    by (subst has.simps, subst lookupProvider.simps)
       (auto simp: providers_has_def split: option.splits)
qed

lemma resolve_no_provider:
  assumes "\<not> isConstructorToken t" and "lookupProvider w c t = None"
  shows "resolve (Suc n) c t R w = Some (Inl (NoProvider t R), R, w)"
  using assms by (cases t) (simp_all add: isConstructorToken_def)

lemma no_provider_message_names:
  "sublist (''No provider found for '' @ dq @ tokenName @ dq)
           (no_provider_message names tokenName)"
  unfolding sublist_def no_provider_message_def
  by (rule exI[of _ "''[DI Container] ''"]) simp

lemma no_provider_message_chain:
  assumes "names \<noteq> []"
  shows "sublist (''Dependency chain: '' @ join '' -> '' names @ '' -> '' @ tokenName)
           (no_provider_message names tokenName)"
  unfolding sublist_def no_provider_message_def using assms
  apply (rule_tac x = "''[DI Container] No provider found for '' @ dq @ tokenName @ dq
                         @ ''.'' @ nl" in exI)
  apply simp
  done

section \<open>The app mounts every controller once\<close>

lemma set_controllers_add: "set (fold controllers_add cs S) = set cs \<union> set S"
  by (induction cs arbitrary: S) (auto simp: controllers_add_def)

lemma distinct_controllers_add: "distinct S \<Longrightarrow> distinct (fold controllers_add cs S)"
  by (induction cs arbitrary: S) (auto simp: controllers_add_def)

lemma fold_collect_set:
  assumes "\<And>x S. x \<in> set ms \<Longrightarrow> set (f x S) = g x \<union> set S"
  shows "set (fold f ms S) = (\<Union> (set (map g ms))) \<union> set S"
  using assms by (induction ms arbitrary: S) auto

lemma fold_collect_distinct:
  assumes "\<And>x S. x \<in> set ms \<Longrightarrow> distinct S \<Longrightarrow> distinct (f x S)" and "distinct S"
  shows "distinct (fold f ms S)"
  using assms by (induction ms arbitrary: S) auto

lemma set_collectControllers:
  "set (collectControllers m S) = tree_controllers m \<union> set S"
proof (induction m S rule: collectControllers.induct)
  case (1 cs ims es ps c S)
  have "set (fold collectControllers ims (fold controllers_add cs S))
          = (\<Union> (set (map tree_controllers ims))) \<union> set (fold controllers_add cs S)"
    by (rule fold_collect_set) (rule 1)
  then show ?case
    by (auto simp: set_controllers_add)
qed

lemma distinct_collectControllers:
  "distinct S \<Longrightarrow> distinct (collectControllers m S)"
proof (induction m S rule: collectControllers.induct)
  case (1 cs ims es ps c S)
  have "distinct (fold collectControllers ims (fold controllers_add cs S))"
    by (rule fold_collect_distinct) (use 1 in \<open>auto intro: distinct_controllers_add\<close>)
  then show ?case by simp
qed

text \<open>
  C6. The routers mounted on the app that \<open>createApp\<close> returns are those of the
  collected controllers, each at the prefix of its controller; the collected controllers
  are exactly the controllers of the root module and of the modules reachable through
  imports, and none of them is collected twice.
\<close>

theorem createApp_mounts_each_controller_once:
  "hono_route (createApp m options)
     = map (\<lambda>x. (route_prefix x, app x)) (collectControllers m [])
   \<and> set (collectControllers m []) = tree_controllers m
   \<and> distinct (collectControllers m [])"
  by (simp add: createApp_def set_collectControllers distinct_collectControllers)

theorem createApp_mounts_each_controller_once_witness:
  "hono_route (createApp app_module NoOptions) = [(''/users'', 0), (''/posts'', 2)]
   \<and> tree_controllers app_module
       = {ControllerDefinition 1 ''/users'' 0, ControllerDefinition 3 ''/posts'' 2}"
proof -
  have c: "collectControllers app_module []
             = [ControllerDefinition 1 ''/users'' 0, ControllerDefinition 3 ''/posts'' 2]"
    by (simp add: app_module_def users_module_def posts_module_def controllers_add_def)
  show ?thesis
    using createApp_mounts_each_controller_once[of app_module NoOptions]
    by (simp add: c insert_commute)
qed

section \<open>Modules register their providers without resolving them\<close>

lemma providers_get_set:
  "providers_get (providers_set p ps) t = (if t = provide p then Some p else providers_get ps t)"
  by (induction ps) (auto simp: providers_get_def)

lemma providers_get_append:
  "providers_get (xs @ ys) t
     = (case providers_get xs t of Some x \<Rightarrow> Some x | None \<Rightarrow> providers_get ys t)"
  by (induction xs) (auto simp: providers_get_def)

lemma providers_get_Cons:
  "providers_get (p # ps) t = (if provide p = t then Some p else providers_get ps t)"
  by (simp add: providers_get_def)

lemma providers_get_Nil: "providers_get [] t = None"
  by (simp add: providers_get_def)

lemma providers_get_provide: "providers_get ps t = Some p \<Longrightarrow> provide p = t"
  by (induction ps) (auto simp: providers_get_def split: if_splits)

lemma register_heap_same:
  "heap (register c p w) c =
     (heap w c)\<lparr>providers := providers_set p (providers (heap w c)),
                 instances := (case p of
                     ValueProvider _ _ v \<Rightarrow> (instances (heap w c))(provide p \<mapsto> v)
                   | _ \<Rightarrow> (instances (heap w c))(provide p := None))\<rparr>"
  by (simp add: register_def Let_def)

lemma register_heap_other: "c' \<noteq> c \<Longrightarrow> heap (register c p w) c' = heap w c'"
  by (simp add: register_def Let_def)

lemma register_providers_get:
  "providers_get (providers (heap (register c p w) c)) t
     = (if t = provide p then Some p else providers_get (providers (heap w c)) t)"
  by (simp add: register_heap_same providers_get_set)

lemma register_instances:
  "instances (heap (register c p w) c) t
     = (if t = provide p then (if isValueProvider p then Some (useValue p) else None)
        else instances (heap w c) t)"
  by (cases p) (simp_all add: register_heap_same isValueProvider_def)

lemma registerMany_providers_get:
  "providers_get (providers (heap (registerMany c ps w) c)) t
     = (case providers_get (rev ps) t of
          Some p \<Rightarrow> Some p
        | None \<Rightarrow> providers_get (providers (heap w c)) t)"
  unfolding registerMany_def
proof (induction ps arbitrary: w)
  case Nil
  then show ?case by (simp add: providers_get_def)
next
  case (Cons p ps)
  show ?case
    by (auto simp: Cons.IH register_providers_get providers_get_append providers_get_Cons
        providers_get_Nil split: option.splits)
qed

lemma registerMany_instances:
  "instances (heap (registerMany c ps w) c) t
     = (case providers_get (rev ps) t of
          Some p \<Rightarrow> (if isValueProvider p then Some (useValue p) else None)
        | None \<Rightarrow> instances (heap w c) t)"
  unfolding registerMany_def
proof (induction ps arbitrary: w)
  case Nil
  then show ?case by (simp add: providers_get_def)
next
  case (Cons p ps)
  show ?case
    by (auto simp: Cons.IH register_instances providers_get_append providers_get_Cons
        providers_get_Nil split: option.splits)
qed

lemma instantiate_controllers_no_setup:
  assumes "instantiate_controllers n c cfs w = Some (r, w')"
    and "\<forall>cf \<in> set cfs. cf_setup cf = []"
  shows "heap w' = heap w \<and> calls w' = calls w"
  using assms
proof (induction cfs arbitrary: w r w')
  case Nil
  then show ?case by simp
next
  case (Cons cf cfs)
  then show ?case
    by (auto simp: controller_factory_call_def Let_def
        split: option.splits sum.splits prod.splits)
qed

text \<open>
  When \<open>defineModule\<close> returns a module whose controllers resolve nothing during
  setup, every class or factory provider of the module (the last one listed for its
  token) is registered in the container of the module and has no instance there.
\<close>

lemma defineModule_registers_only:
  assumes "defineModule n config w = Some (Inr m, w')"
    and "\<forall>cf \<in> set (cfg_controllers config). cf_setup cf = []"
    and "providers_get (rev (cfg_providers config)) t = Some p"
    and "\<not> isValueProvider p"
  shows "providers_get (providers (heap w' (mod_container m))) t = Some p
       \<and> instances (heap w' (mod_container m)) t = None"
proof -
  obtain c w0 where n: "new_DIContainer None False w = (c, w0)"
    by (cases "new_DIContainer None False w")
  from assms(1) n obtain w1 cs where
    k: "instantiate_controllers n c (cfg_controllers config)
          (registerMany c (cfg_providers config) w1) = Some (Inr cs, w')" and
    m: "m = ModuleDefinition cs (cfg_imports config) (cfg_exports config)
              (cfg_providers config) c"
    by (auto simp: defineModule_def split: option.splits sum.splits prod.splits)
  have h: "heap w' = heap (registerMany c (cfg_providers config) w1)"
    using instantiate_controllers_no_setup[OF k assms(2)] by simp
  show ?thesis
    using assms(3,4) by (simp add: m h registerMany_providers_get registerMany_instances)
qed

lemma defineModule_lazy_config:
  "defineModule 0 lazy_config world0
     = Some (Inr (ModuleDefinition [ControllerDefinition 1 ''/users'' 0] [] []
                    [user_service_provider] 0), lazy_world)"
  by (simp add: defineModule_def lazy_config_def new_DIContainer_def world0_def
      registerMany_def controller_factory_call_def lazy_world_def Let_def register_def
      providers_has_def providers_get_def empty_container_def user_service_provider_def)

lemma get_lazy_world:
  "get (Suc 0) 0 (TSymbol 1 ''UserService'') lazy_world = Some (Inr (Created 0), lazy_world1)"
  by (simp add: get_def lookupProvider.simps lazy_world_def lazy_world1_def register_def
      new_DIContainer_def world0_def Let_def providers_has_def providers_get_def
      empty_container_def user_service_provider_def cached_singleton_def lifetime_of_def
      instantiateProvider_def declaredDeps_def invoke_def returns_def set_add_def
      set_delete_def instances_set_def)

text \<open>
  C7 does not hold of the module of \<open>lazy_config\<close>, which has one factory provider
  without dependencies and one controller whose setup resolves nothing.
  \<open>defineModule\<close> returns the module under the bound \<open>0\<close>, under which any
  resolution would have no answer: none takes place. When it has returned, no factory
  has been invoked and the provider has no instance; the instance is created by the
  \<open>get\<close> that follows.
\<close>

theorem defineModule_not_eager:
  "defineModule 0 lazy_config world0
     = Some (Inr (ModuleDefinition [ControllerDefinition 1 ''/users'' 0] [] []
                    [user_service_provider] 0), lazy_world)
   \<and> calls lazy_world = []
   \<and> instances (heap lazy_world 0) (provide user_service_provider) = None
   \<and> get (Suc 0) 0 (provide user_service_provider) lazy_world
       = Some (Inr (Created 0), lazy_world1)
   \<and> calls lazy_world1 = [(user_service_provider, [])]"
  using defineModule_lazy_config get_lazy_world
  by (simp add: lazy_world_def lazy_world1_def register_def new_DIContainer_def world0_def
      Let_def user_service_provider_def instances_set_def)

section \<open>Resolution: lookups, the resolving set and settled tokens\<close>

subsection \<open>Lookup\<close>

lemma lookupProvider_direct:
  "providers_get (providers (heap w c)) t = Some p \<Longrightarrow> lookupProvider w c t = Some (p, c)"
  by (subst lookupProvider.simps) simp

lemma lookupProvider_owner:
  "lookupProvider w c t = Some (p, owner) \<Longrightarrow>
     providers_get (providers (heap w owner)) t = Some p \<and> owner \<le> c \<and> provide p = t"
proof (induction w c t rule: lookupProvider.induct)
  case (1 w c t)
  from "1.prems" show ?case
    apply (subst (asm) lookupProvider.simps)
    apply (auto split: option.splits if_splits dest: providers_get_provide)
    using "1.IH" apply fastforce+
    done
qed

lemma lookupProvider_cong:
  assumes "\<And>x. providers (heap w' x) = providers (heap w x)"
    and "\<And>x. parent (heap w' x) = parent (heap w x)"
  shows "lookupProvider w' c t = lookupProvider w c t"
proof (induction c rule: less_induct)
  case (less c)
  show ?case
    apply (subst lookupProvider.simps)
    apply (subst (2) lookupProvider.simps)
    using less assms
    apply (auto split: option.splits)
    done
qed

lemma lookupProvider_below:
  assumes "\<And>x. x \<le> d \<Longrightarrow> heap w' x = heap w x"
  shows "lookupProvider w' d t = lookupProvider w d t"
  using assms
proof (induction d rule: less_induct)
  case (less d)
  have h: "heap w' d = heap w d"
    using less.prems by simp
  have "lookupProvider w' q t = lookupProvider w q t" if "q < d" for q
    using less.IH[OF that] less.prems that by simp
  then show ?case
    by (subst lookupProvider.simps, subst (2) lookupProvider.simps)
       (auto simp: h split: option.splits)
qed

lemma stable_refl: "stable w w"
  by (simp add: stable_def)

lemma stable_trans: "stable w1 w2 \<Longrightarrow> stable w2 w3 \<Longrightarrow> stable w1 w3"
  by (simp add: stable_def)

lemma stable_cong:
  assumes "classes w' = classes w"
    and "\<And>x. providers (heap w' x) = providers (heap w x)"
    and "\<And>x. parent (heap w' x) = parent (heap w x)"
  shows "stable w w'"
  using assms lookupProvider_cong[of w' w] by (simp add: stable_def)

lemma stable_instances_set: "stable w (instances_set owner t v w)"
  by (rule stable_cong) (simp_all add: instances_set_def)

lemma stable_calls: "stable w (w\<lparr>calls := xs\<rparr>)"
  by (rule stable_cong) simp_all

lemma register_parent: "parent (heap (register c p w) x) = parent (heap w x)"
  by (simp add: register_def Let_def)

lemma register_classes: "classes (register c p w) = classes w"
  by (simp add: register_def Let_def)

lemma register_calls: "calls (register c p w) = calls w"
  by (simp add: register_def Let_def)

lemma register_providers:
  "providers (heap (register c p w) x)
     = (if x = c then providers_set p (providers (heap w c)) else providers (heap w x))"
  by (simp add: register_def Let_def)

lemma lookupProvider_register_new:
  assumes "lookupProvider w c (provide p) = None"
    and "lookupProvider w c' t = Some x"
  shows "lookupProvider (register c p w) c' t = Some x"
  using assms(2)
proof (induction c' rule: less_induct)
  case (less c')
  have ne: "c' = c \<Longrightarrow> t \<noteq> provide p"
    using assms(1) less.prems by auto
  show ?case
  proof (cases "providers_get (providers (heap w c')) t")
    case (Some q)
    then have "x = (q, c')"
      using less.prems by (subst (asm) lookupProvider.simps) simp
    moreover have "providers_get (providers (heap (register c p w) c')) t = Some q"
      using Some ne by (auto simp: register_providers providers_get_set)
    ultimately show ?thesis
      by (simp add: lookupProvider_direct)
  next
    case None
    then obtain q where q: "parent (heap w c') = Some q" "q < c'"
      "lookupProvider w q t = Some x"
      using less.prems
      by (subst (asm) lookupProvider.simps) (auto split: option.splits if_splits)
    have "providers_get (providers (heap (register c p w) c')) t = None"
      using None ne by (auto simp: register_providers providers_get_set)
    then show ?thesis
      using q less.IH[of q]
      by (subst lookupProvider.simps) (simp add: register_parent)
  qed
qed

lemma stable_register_new:
  "lookupProvider w c (provide p) = None \<Longrightarrow> stable w (register c p w)"
  by (simp add: stable_def register_classes register_parent lookupProvider_register_new)


subsection \<open>The cases of a resolution\<close>

lemma resolve_cases [consumes 1, case_names auto_register no_provider provided cached
    circular created failed]:
  assumes "resolve (Suc n) c t R w = Some (r, R', w')"
  obtains
    k where "lookupProvider w c t = None" "t = TCtor k"
      "resolve n c t R (register c (ClassProvider t None k None) w) = Some (r, R', w')"
  | "lookupProvider w c t = None" "\<not> isConstructorToken t"
      "r = Inl (NoProvider t R)" "R' = R" "w' = w"
  | p owner where "lookupProvider w c t = Some (p, owner)" "isValueProvider p"
      "r = Inr (useValue p)" "R' = R" "w' = w"
  | p owner v where "lookupProvider w c t = Some (p, owner)" "\<not> isValueProvider p"
      "cached_singleton w owner p = Some v" "r = Inr v" "R' = R" "w' = w"
  | p owner where "lookupProvider w c t = Some (p, owner)" "\<not> isValueProvider p"
      "cached_singleton w owner p = None" "t \<in> set R"
      "r = Inl (CircularDependency R t)" "R' = R" "w' = w"
  | p owner v R1 w1 where "lookupProvider w c t = Some (p, owner)" "\<not> isValueProvider p"
      "cached_singleton w owner p = None" "t \<notin> set R"
      "instantiateProvider (resolve n c) p (set_add t R) w = Some (Inr v, R1, w1)"
      "r = Inr v" "R' = set_delete t R1"
      "w' = (if lifetime_of p = Singleton then instances_set owner t v w1 else w1)"
  | p owner e R1 w1 where "lookupProvider w c t = Some (p, owner)" "\<not> isValueProvider p"
      "cached_singleton w owner p = None" "t \<notin> set R"
      "instantiateProvider (resolve n c) p (set_add t R) w = Some (Inl e, R1, w1)"
      "r = Inl e" "R' = set_delete t R1" "w' = w1"
proof (cases "lookupProvider w c t")
  case None
  show ?thesis
  proof (cases t)
    case (TCtor k)
    with None assms have
      "resolve n c t R (register c (ClassProvider t None k None) w) = Some (r, R', w')"
      by simp
    with None TCtor show ?thesis by (rule that(1))
  next
    case (TString s)
    with None assms have "r = Inl (NoProvider t R)" "R' = R" "w' = w" by auto
    moreover have "\<not> isConstructorToken t"
      using TString by (simp add: isConstructorToken_def)
    ultimately show ?thesis using None by (intro that(2))
  next
    case (TSymbol i d)
    with None assms have "r = Inl (NoProvider t R)" "R' = R" "w' = w" by auto
    moreover have "\<not> isConstructorToken t"
      using TSymbol by (simp add: isConstructorToken_def)
    ultimately show ?thesis using None by (intro that(2))
  qed
next
  case (Some x)
  obtain p owner where x: "x = (p, owner)" by (cases x)
  have l: "lookupProvider w c t = Some (p, owner)"
    using Some x by simp
  have pt: "provide p = t"
    using l lookupProvider_owner by blast
  show ?thesis
  proof (cases "isValueProvider p")
    case True
    then obtain a b v where "p = ValueProvider a b v"
      by (cases p) (auto simp: isValueProvider_def)
    with l assms have "r = Inr (useValue p)" "R' = R" "w' = w" by auto
    with l True show ?thesis by (intro that(3))
  next
    case nv: False
    have unfold0: "resolve (Suc n) c t R w =
        (case cached_singleton w owner p of
           Some v \<Rightarrow> Some (Inr v, R, w)
         | None \<Rightarrow>
            if provide p \<in> set R
            then Some (Inl (CircularDependency R (provide p)), R, w)
            else
              (case instantiateProvider (resolve n c) p (set_add (provide p) R) w of
                 None \<Rightarrow> None
               | Some (Inr v, R1, w1) \<Rightarrow>
                   Some (Inr v, set_delete (provide p) R1,
                         if lifetime_of p = Singleton
                         then instances_set owner (provide p) v w1 else w1)
               | Some (Inl e, R1, w1) \<Rightarrow>
                   Some (Inl e, set_delete (provide p) R1, w1)))"
      using l nv by (cases p; hypsubst; simp add: isValueProvider_def)
    note unfold = unfold0[unfolded pt]
    show ?thesis
    proof (cases "cached_singleton w owner p")
      case (Some v)
      with unfold assms have "r = Inr v" "R' = R" "w' = w" by auto
      with l nv Some show ?thesis by (intro that(4))
    next
      case None
      show ?thesis
      proof (cases "t \<in> set R")
        case True
        with unfold assms None have "r = Inl (CircularDependency R t)" "R' = R" "w' = w"
          by auto
        with l nv None True show ?thesis by (intro that(5))
      next
        case False
        from unfold assms None False obtain r1 R1 w1 where
          i: "instantiateProvider (resolve n c) p (set_add t R) w = Some (r1, R1, w1)"
          by (auto split: option.splits)
        show ?thesis
        proof (cases r1)
          case (Inr v)
          with unfold assms None False i have "r = Inr v" "R' = set_delete t R1"
            "w' = (if lifetime_of p = Singleton then instances_set owner t v w1 else w1)"
            by auto
          with l nv None False i Inr show ?thesis by (intro that(6)) auto
        next
          case (Inl e)
          with unfold assms None False i have "r = Inl e" "R' = set_delete t R1" "w' = w1"
            by auto
          with l nv None False i Inl show ?thesis by (intro that(7)) auto
        qed
      qed
    qed
  qed
qed


lemma instantiateProvider_unfold:
  assumes "\<not> isValueProvider p"
  shows "instantiateProvider rslv p R w =
     (case resolveDependencies rslv (declaredDeps w p) R w of
        None \<Rightarrow> None
      | Some (Inl e, R1, w1) \<Rightarrow> Some (Inl e, R1, w1)
      | Some (Inr vs, R1, w1) \<Rightarrow>
          if count_mismatch p vs then Some (Inl (mismatch_error w p vs), R1, w1)
          else (case provider_body w1 p vs of
                  Some msg \<Rightarrow>
                    Some (Inl (invoke_failure w p msg), R1,
                          w1\<lparr>calls := calls w1 @ [(p, vs)]\<rparr>)
                | None \<Rightarrow>
                    Some (Inr (Created (length (calls w1))), R1,
                          w1\<lparr>calls := calls w1 @ [(p, vs)]\<rparr>)))"
  using assms
  by (cases p)
     (auto simp: instantiateProvider_def isValueProvider_def count_mismatch_def
        mismatch_error_def provider_body_def invoke_failure_def invoke_def
        split: option.splits sum.splits prod.splits)

lemma instantiateProvider_cases [consumes 2, case_names deps_failed mismatch threw returned]:
  assumes "instantiateProvider rslv p R w = Some (r, R', w')" and "\<not> isValueProvider p"
  obtains
    e where "resolveDependencies rslv (declaredDeps w p) R w = Some (Inl e, R', w')"
      "r = Inl e"
  | vs where "resolveDependencies rslv (declaredDeps w p) R w = Some (Inr vs, R', w')"
      "count_mismatch p vs" "r = Inl (mismatch_error w p vs)"
  | vs w1 msg where "resolveDependencies rslv (declaredDeps w p) R w = Some (Inr vs, R', w1)"
      "\<not> count_mismatch p vs" "provider_body w1 p vs = Some msg"
      "r = Inl (invoke_failure w p msg)" "w' = w1\<lparr>calls := calls w1 @ [(p, vs)]\<rparr>"
  | vs w1 where "resolveDependencies rslv (declaredDeps w p) R w = Some (Inr vs, R', w1)"
      "\<not> count_mismatch p vs" "provider_body w1 p vs = None"
      "r = Inr (Created (length (calls w1)))" "w' = w1\<lparr>calls := calls w1 @ [(p, vs)]\<rparr>"
  using assms(1) unfolding instantiateProvider_unfold[OF assms(2)]
  by (auto split: option.splits sum.splits prod.splits if_splits intro: that)

subsection \<open>Relations that every step of a resolution respects\<close>

lemma resolveDependencies_rel:
  assumes refl: "\<And>R w. Q (R, w) (R, w)"
    and trans: "\<And>a b c. Q a b \<Longrightarrow> Q b c \<Longrightarrow> Q a c"
    and step: "\<And>d R w r R' w'. d \<in> set ds \<Longrightarrow> rslv d R w = Some (r, R', w')
                 \<Longrightarrow> Q (R, w) (R', w')"
    and run: "resolveDependencies rslv ds R w = Some (r, R', w')"
  shows "Q (R, w) (R', w')"
  using step run
proof (induction ds arbitrary: R w r R' w')
  case Nil
  then show ?case using refl by simp
next
  case (Cons d ds)
  from Cons.prems(2) obtain r1 R1 w1 where
    d: "rslv d R w = Some (r1, R1, w1)"
    by (auto split: option.splits)
  have q1: "Q (R, w) (R1, w1)"
    using Cons.prems(1)[of d] d by simp
  show ?case
  proof (cases r1)
    case (Inl e)
    with Cons.prems(2) d have "R' = R1" "w' = w1" by auto
    with q1 show ?thesis by simp
  next
    case (Inr v)
    with Cons.prems(2) d obtain r2 where
      rest: "resolveDependencies rslv ds R1 w1 = Some (r2, R', w')"
      by (auto split: option.splits sum.splits)
    have "Q (R1, w1) (R', w')"
    proof (rule Cons.IH[OF _ rest])
      fix d' R w r R' w'
      assume "d' \<in> set ds" "rslv d' R w = Some (r, R', w')"
      then show "Q (R, w) (R', w')"
        using Cons.prems(1)[of d'] by simp
    qed
    with q1 show ?thesis by (rule trans)
  qed
qed

lemma instantiateProvider_rel:
  assumes refl: "\<And>R w. Q (R, w) (R, w)"
    and trans: "\<And>a b c. Q a b \<Longrightarrow> Q b c \<Longrightarrow> Q a c"
    and step: "\<And>d R w r R' w'. d \<in> set (declaredDeps w0 p)
                 \<Longrightarrow> rslv d R w = Some (r, R', w') \<Longrightarrow> Q (R, w) (R', w')"
    and call: "\<And>R w vs. Q (R, w) (R, w\<lparr>calls := calls w @ [(p, vs)]\<rparr>)"
    and nv: "\<not> isValueProvider p"
    and run: "instantiateProvider rslv p R w0 = Some (r, R', w')"
  shows "Q (R, w0) (R', w')"
proof -
  have ds: "Q (R, w0) (R1, w1)"
    if "resolveDependencies rslv (declaredDeps w0 p) R w0 = Some (r1, R1, w1)" for r1 R1 w1
  proof (rule resolveDependencies_rel[where Q = Q and rslv = rslv
        and ds = "declaredDeps w0 p"])
    show "resolveDependencies rslv (declaredDeps w0 p) R w0 = Some (r1, R1, w1)"
      by (rule that)
  qed (use refl trans step in blast)+
  from run nv show ?thesis
  proof (cases rule: instantiateProvider_cases)
    case (deps_failed e)
    then show ?thesis using ds by blast
  next
    case (mismatch vs)
    then show ?thesis using ds by blast
  next
    case (threw vs w1 msg)
    then have "Q (R, w0) (R', w1)"
      using ds by blast
    then show ?thesis using call threw(5) trans by blast
  next
    case (returned vs w1)
    then have "Q (R, w0) (R', w1)"
      using ds by blast
    then show ?thesis using call returned(5) trans by blast
  qed
qed

subsection \<open>The set of tokens being resolved is restored; lookups are stable\<close>

lemma set_delete_add: "t \<notin> set R \<Longrightarrow> set_delete t (set_add t R) = R"
  by (simp add: set_delete_def set_add_def)

lemma resolve_restores_stable:
  "resolve n c t R w = Some (r, R', w') \<Longrightarrow> R' = R \<and> stable w w'"
proof (induction n arbitrary: t R w r R' w')
  case 0
  then show ?case by simp
next
  case (Suc n)
  let ?Q = "\<lambda>(a::token list \<times> world) b. fst b = fst a \<and> stable (snd a) (snd b)"
  have inst: "R1 = R0 \<and> stable w0 w1"
    if "instantiateProvider (resolve n c) p R0 w0 = Some (r1, R1, w1)" "\<not> isValueProvider p"
    for p R0 w0 r1 R1 w1
  proof -
    have "?Q (R0, w0) (R1, w1)"
    proof (rule instantiateProvider_rel[where Q = ?Q, OF _ _ _ _ that(2) that(1)])
      show "\<And>a b c. ?Q a b \<Longrightarrow> ?Q b c \<Longrightarrow> ?Q a c"
        by (auto intro: stable_trans)
    qed (use Suc.IH in \<open>auto simp: stable_refl stable_calls\<close>)
    then show ?thesis by simp
  qed
  from Suc.prems show ?case
  proof (cases rule: resolve_cases)
    case (auto_register k)
    have "stable w (register c (ClassProvider t None k None) w)"
      using auto_register(1) by (intro stable_register_new) simp
    then show ?thesis
      using Suc.IH[OF auto_register(3)] stable_trans by blast
  next
    case (created p owner v R1 w1)
    then show ?thesis
      using inst[OF created(5,2)]
      by (auto simp: set_delete_add intro: stable_trans stable_instances_set)
  next
    case (failed p owner e R1 w1)
    then show ?thesis
      using inst[OF failed(5,2)] by (auto simp: set_delete_add)
  qed (simp_all add: stable_refl)
qed


subsection \<open>A settled token is left alone\<close>

lemma kept_refl: "kept t w w"
  by (simp add: kept_def)

lemma kept_trans: "kept t w1 w2 \<Longrightarrow> kept t w2 w3 \<Longrightarrow> kept t w1 w3"
  by (simp add: kept_def)

lemma kept_calls: "provide p \<noteq> t \<Longrightarrow> kept t w (w\<lparr>calls := calls w @ [(p, vs)]\<rparr>)"
  by (simp add: kept_def invocations_def)

lemma kept_instances_set: "u \<noteq> t \<Longrightarrow> kept t w (instances_set owner u v w)"
  by (simp add: kept_def invocations_def instances_set_def)

lemma kept_register: "provide p \<noteq> t \<Longrightarrow> kept t w (register c p w)"
  by (cases p) (auto simp: kept_def invocations_def register_def Let_def)

lemma settled_preserved:
  assumes "settled w c R t" and "stable w w'" and "kept t w w'"
  shows "settled w' c R t"
proof -
  from assms(1) obtain p owner where
    l: "lookupProvider w c t = Some (p, owner)" and
    d: "isValueProvider p \<or> cached_singleton w owner p \<noteq> None \<or> t \<in> set R"
    by (auto simp: settled_def split: option.splits)
  have l': "lookupProvider w' c t = Some (p, owner)"
    using l assms(2) by (simp add: stable_def)
  have "provide p = t"
    using l lookupProvider_owner by blast
  then have "cached_singleton w' owner p = cached_singleton w owner p"
    using assms(3) by (simp add: cached_singleton_def kept_def)
  with l' d show ?thesis
    by (simp add: settled_def)
qed

lemma settled_mono: "settled w c R t \<Longrightarrow> set R \<subseteq> set R' \<Longrightarrow> settled w c R' t"
  by (auto simp: settled_def split: option.splits)

lemma set_set_add: "set (set_add u R) = insert u (set R)"
  by (auto simp: set_add_def)

lemma resolve_kept:
  "resolve n c u R w = Some (r, R', w') \<Longrightarrow> settled w c R t \<Longrightarrow> kept t w w'"
proof (induction n arbitrary: u R w r R' w')
  case 0
  then show ?case by simp
next
  case (Suc n)
  let ?Q = "\<lambda>(a::token list \<times> world) b.
      fst b = fst a \<and> stable (snd a) (snd b)
      \<and> (settled (snd a) c (fst a) t \<longrightarrow> kept t (snd a) (snd b))"
  have trans: "?Q a b \<Longrightarrow> ?Q b d \<Longrightarrow> ?Q a d" for a b d
    using settled_preserved[of "snd a" c "fst a" t "snd b"]
    by (auto intro: stable_trans kept_trans)
  have inst: "kept t w0 w1"
    if "instantiateProvider (resolve n c) p R0 w0 = Some (r1, R1, w1)" "\<not> isValueProvider p"
      "provide p \<noteq> t" "settled w0 c R0 t"
    for p R0 w0 r1 R1 w1
  proof -
    have "?Q (R0, w0) (R1, w1)"
    proof (rule instantiateProvider_rel[where Q = ?Q, OF _ trans _ _ that(2) that(1)])
      fix d R w r R' w'
      assume "resolve n c d R w = Some (r, R', w')"
      then show "?Q (R, w) (R', w')"
        using Suc.IH resolve_restores_stable by auto
    qed (use that(3) in \<open>auto simp: stable_refl stable_calls kept_refl kept_calls\<close>)
    with that(4) show ?thesis by simp
  qed
  from Suc.prems(2) obtain q qo where
    lt: "lookupProvider w c t = Some (q, qo)" and
    dt: "isValueProvider q \<or> cached_singleton w qo q \<noteq> None \<or> t \<in> set R"
    by (auto simp: settled_def split: option.splits)
  from Suc.prems(1) show ?case
  proof (cases rule: resolve_cases)
    case (auto_register k)
    let ?w = "register c (ClassProvider u None k None) w"
    have ne: "u \<noteq> t"
      using auto_register(1) lt by auto
    have s: "stable w ?w"
      using auto_register(1) by (intro stable_register_new) simp
    have k1: "kept t w ?w"
      using ne by (intro kept_register) simp
    have "settled ?w c R t"
      using Suc.prems(2) s k1 by (rule settled_preserved)
    then have "kept t ?w w'"
      using Suc.IH auto_register(3) by blast
    with k1 show ?thesis by (rule kept_trans)
  next
    case (created p owner v R1 w1)
    have ne: "u \<noteq> t"
      using created(1-4) lt dt by auto
    have pu: "provide p = u"
      using created(1) lookupProvider_owner by blast
    have "settled w c (set_add u R) t"
      using Suc.prems(2) by (rule settled_mono) (auto simp: set_set_add)
    then have "kept t w w1"
      using inst[OF created(5,2)] pu ne by simp
    then show ?thesis
      using created(8) ne by (auto intro: kept_trans kept_instances_set)
  next
    case (failed p owner e R1 w1)
    have ne: "u \<noteq> t"
      using failed(1-4) lt dt by auto
    have pu: "provide p = u"
      using failed(1) lookupProvider_owner by blast
    have "settled w c (set_add u R) t"
      using Suc.prems(2) by (rule settled_mono) (auto simp: set_set_add)
    then show ?thesis
      using inst[OF failed(5,2)] pu ne failed(8) by simp
  qed (simp_all add: kept_refl)
qed

section \<open>Singleton and transient lifetimes\<close>

subsection \<open>Frames of the three functions\<close>

lemma resolve_calls: "resolve n c u R w = Some (r, R', w') \<Longrightarrow> prefix (calls w) (calls w')"
proof (induction n arbitrary: u R w r R' w')
  case 0
  then show ?case by simp
next
  case (Suc n)
  let ?Q = "\<lambda>(a::token list \<times> world) b. prefix (calls (snd a)) (calls (snd b))"
  have inst: "prefix (calls w0) (calls w1)"
    if "instantiateProvider (resolve n c) p R0 w0 = Some (r1, R1, w1)" "\<not> isValueProvider p"
    for p R0 w0 r1 R1 w1
  proof -
    have "?Q (R0, w0) (R1, w1)"
      by (rule instantiateProvider_rel[where Q = ?Q, OF _ _ _ _ that(2) that(1)])
         (use Suc.IH in auto)
    then show ?thesis by simp
  qed
  from Suc.prems show ?case
  proof (cases rule: resolve_cases)
    case (auto_register k)
    then show ?thesis
      using Suc.IH[OF auto_register(3)] by (simp add: register_calls)
  next
    case (created p owner v R1 w1)
    then show ?thesis
      using inst[OF created(5,2)] by (auto simp: instances_set_def)
  next
    case (failed p owner e R1 w1)
    then show ?thesis
      using inst[OF failed(5,2)] by auto
  qed simp_all
qed

lemma resolveDependencies_frame:
  assumes "resolveDependencies (resolve n c) ds R w = Some (r, R', w')"
  shows "R' = R \<and> stable w w' \<and> prefix (calls w) (calls w')
         \<and> (settled w c R t \<longrightarrow> kept t w w')"
proof -
  let ?Q = "\<lambda>(a::token list \<times> world) b.
      fst b = fst a \<and> stable (snd a) (snd b) \<and> prefix (calls (snd a)) (calls (snd b))
      \<and> (settled (snd a) c (fst a) t \<longrightarrow> kept t (snd a) (snd b))"
  have trans: "?Q a b \<Longrightarrow> ?Q b d \<Longrightarrow> ?Q a d" for a b d
    using settled_preserved[of "snd a" c "fst a" t "snd b"]
    by (auto intro: stable_trans kept_trans)
  have "?Q (R, w) (R', w')"
  proof (rule resolveDependencies_rel[where Q = ?Q, OF _ trans _ assms])
    fix d R w r R' w'
    assume "resolve n c d R w = Some (r, R', w')"
    then show "?Q (R, w) (R', w')"
      using resolve_kept resolve_restores_stable resolve_calls by auto
  qed (auto simp: stable_refl kept_refl)
  then show ?thesis by simp
qed



subsection \<open>Calls that create and calls that find the cached instance\<close>

lemma resolve_cached:
  assumes "lookupProvider w c t = Some (p, owner)" and "\<not> isValueProvider p"
    and "cached_singleton w owner p = Some v"
  shows "resolve (Suc k) c t R w = Some (Inr v, R, w)"
  using assms by (cases p; hypsubst; simp add: isValueProvider_def)

lemma resolve_value:
  assumes "lookupProvider w c t = Some (p, owner)" and "isValueProvider p"
  shows "resolve (Suc k) c t R w = Some (Inr (useValue p), R, w)"
  using assms by (cases p; hypsubst; simp add: isValueProvider_def)

lemma settled_in_resolving:
  "lookupProvider w c t = Some (p, owner) \<Longrightarrow> t \<in> set R \<Longrightarrow> settled w c R t"
  by (simp add: settled_def)










lemma resolve_leaf_factory:
  assumes "lookupProvider w c t = Some (p, owner)"
    and "p = FactoryProvider t lt (Factory 0 returns) None"
    and "cached_singleton w owner p = None" and "t \<notin> set R"
  shows "resolve (Suc n) c t R w =
           Some (Inr (Created (length (calls w))), R,
                 if lifetime_of p = Singleton
                 then instances_set owner t (Created (length (calls w)))
                        (w\<lparr>calls := calls w @ [(p, [])]\<rparr>)
                 else w\<lparr>calls := calls w @ [(p, [])]\<rparr>)"
  using assms
  by (simp add: instantiateProvider_def declaredDeps_def invoke_def returns_def
      set_add_def set_delete_def)










section \<open>Parent and child containers\<close>

lemma lookupProvider_ancestor:
  "lookupProvider w c t = Some (p, owner) \<Longrightarrow> owner = c \<or> owner \<in> set (ancestors w c)"
proof (induction c rule: less_induct)
  case (less c)
  show ?case
  proof (cases "providers_get (providers (heap w c)) t")
    case (Some q)
    then show ?thesis
      using less.prems by (subst (asm) lookupProvider.simps) simp
  next
    case None
    then obtain q where q: "parent (heap w c) = Some q" "q < c"
      "lookupProvider w q t = Some (p, owner)"
      using less.prems
      by (subst (asm) lookupProvider.simps) (auto split: option.splits if_splits)
    then have "owner = q \<or> owner \<in> set (ancestors w q)"
      using less.IH by blast
    then show ?thesis
      using q by (subst ancestors.simps) auto
  qed
qed











section \<open>A constructor or factory that throws\<close>


lemma resolve_unsettled:
  assumes "lookupProvider w c t = Some (p, owner)" and "\<not> isValueProvider p"
    and "cached_singleton w owner p = None" and "t \<notin> set R"
  shows "resolve (Suc n) c t R w =
           (case instantiateProvider (resolve n c) p (set_add t R) w of
              None \<Rightarrow> None
            | Some (Inr v, R1, w1) \<Rightarrow>
                Some (Inr v, set_delete t R1,
                      if lifetime_of p = Singleton then instances_set owner t v w1 else w1)
            | Some (Inl e, R1, w1) \<Rightarrow> Some (Inl e, set_delete t R1, w1))"
proof -
  have pt: "provide p = t"
    using assms(1) lookupProvider_owner by blast
  have "resolve (Suc n) c t R w =
           (case instantiateProvider (resolve n c) p (set_add (provide p) R) w of
              None \<Rightarrow> None
            | Some (Inr v, R1, w1) \<Rightarrow>
                Some (Inr v, set_delete (provide p) R1,
                      if lifetime_of p = Singleton
                      then instances_set owner (provide p) v w1 else w1)
            | Some (Inl e, R1, w1) \<Rightarrow> Some (Inl e, set_delete (provide p) R1, w1))"
    using assms pt by (cases p; hypsubst; simp add: isValueProvider_def)
  then show ?thesis
    unfolding pt .
qed







section \<open>Constructor tokens without a provider\<close>

subsection \<open>The missing-provider error names no constructor\<close>

lemma resolveDependencies_error:
  assumes "\<And>d R w e R' w'. rslv d R w = Some (Inl e, R', w') \<Longrightarrow> P e"
    and "resolveDependencies rslv ds R w = Some (Inl e, R', w')"
  shows "P e"
  using assms(2)
proof (induction ds arbitrary: R w)
  case Nil
  then show ?case by simp
next
  case (Cons d ds)
  then show ?case
    using assms(1) by (auto split: option.splits sum.splits prod.splits)
qed

lemma resolve_no_provider_error:
  "resolve n c u R w = Some (Inl (NoProvider t Rx), R', w') \<Longrightarrow> \<not> isConstructorToken t"
proof (induction n arbitrary: u R w R' w')
  case 0
  then show ?case by simp
next
  case (Suc n)
  from Suc.prems show ?case
  proof (cases rule: resolve_cases)
    case (auto_register k)
    then show ?thesis using Suc.IH by blast
  next
    case no_provider
    then show ?thesis by simp
  next
    case (failed p owner e R1 w1)
    from failed(5,2) show ?thesis
    proof (cases rule: instantiateProvider_cases)
      case (deps_failed e')
      have "\<not> isConstructorToken t" if "e' = NoProvider t Rx"
        using resolveDependencies_error[where P = "\<lambda>e. e = NoProvider t Rx
              \<longrightarrow> \<not> isConstructorToken t", OF _ deps_failed(1)] Suc.IH that
        by blast
      then show ?thesis using deps_failed(2) failed(6) by simp
    next
      case (mismatch vs)
      then show ?thesis using failed(6) by (simp add: mismatch_error_def)
    next
      case (threw vs w1 msg)
      then show ?thesis
        using failed(6) by (cases p) (simp_all add: invoke_failure_def)
    qed simp
  qed simp_all
qed

lemma register_cached_singleton:
  "\<not> isValueProvider p \<Longrightarrow> cached_singleton (register c p w) c p = None"
  by (simp add: cached_singleton_def register_instances)

lemma register_lookup_self: "lookupProvider (register c p w) c (provide p) = Some (p, c)"
  by (rule lookupProvider_direct) (simp add: register_providers_get)

text \<open>
  C9, as the code has it. Let the class \<open>k\<close> have no provider in the container \<open>c\<close>
  or its ancestors. Then \<open>get\<close> registers in \<open>c\<close> the class provider \<open>p\<close> of the
  class, without \<open>deps\<close> and without a lifetime, and resolves the token again: the
  provider is a singleton with nothing cached, its dependencies are the \<open>inject\<close>
  tokens of the class (none when there is no such array), and no error that \<open>get\<close>
  throws is the missing-provider error of the class itself. When the dependencies
  resolve and the constructor returns, \<open>get\<close> returns the object of this invocation,
  caches it in \<open>c\<close>, and every later \<open>get\<close> returns it and changes nothing.
\<close>

theorem constructor_token_auto_registered:
  assumes "\<not> has w c (TCtor k)"
    and "p = ClassProvider (TCtor k) None k None" and "wr = register c p w"
  shows "get (Suc n) c (TCtor k) w = get n c (TCtor k) wr
       \<and> lookupProvider wr c (TCtor k) = Some (p, c)
       \<and> declaredDeps wr p = (case getInjectTokens w k of Some d \<Rightarrow> d | None \<Rightarrow> [])
       \<and> lifetime_of p = Singleton
       \<and> cached_singleton wr c p = None
       \<and> (\<forall>m e w' R. get m c (TCtor k) w = Some (Inl e, w') \<longrightarrow> e \<noteq> NoProvider (TCtor k) R)
       \<and> (\<forall>vs R1 wd v w1.
            resolveDependencies (resolve n c) (declaredDeps wr p) [TCtor k] wr
              = Some (Inr vs, R1, wd)
            \<longrightarrow> class_new (class_of w k) vs = None
            \<longrightarrow> v = Created (length (calls wd))
            \<longrightarrow> w1 = instances_set c (TCtor k) v (wd\<lparr>calls := calls wd @ [(p, vs)]\<rparr>)
            \<longrightarrow> get (Suc (Suc n)) c (TCtor k) w = Some (Inr v, w1)
                \<and> instances (heap w1 c) (TCtor k) = Some v
                \<and> (\<forall>m. get (Suc m) c (TCtor k) w1 = Some (Inr v, w1)))"
proof -
  let ?t = "TCtor k"
  have l0: "lookupProvider w c ?t = None"
    using assms(1) has_iff_lookup[of w c ?t] by (cases "lookupProvider w c ?t") auto
  have pt: "provide p = ?t" and nv: "\<not> isValueProvider p"
    using assms(2) by (simp_all add: isValueProvider_def)
  have step: "get (Suc n) c ?t w = get n c ?t wr" for n
    using l0 assms(2,3) by (simp add: get_def)
  have l: "lookupProvider wr c ?t = Some (p, c)"
    using register_lookup_self[of c p w] pt assms(3) by simp
  have cl: "classes wr = classes w"
    using assms(3) by (simp add: register_classes)
  have dd: "declaredDeps wr p = (case getInjectTokens w k of Some d \<Rightarrow> d | None \<Rightarrow> [])"
    using assms(2) cl by (simp add: declaredDeps_def getInjectTokens_def class_of_def)
  have lt: "lifetime_of p = Singleton"
    using assms(2) by (simp add: lifetime_of_def)
  have cs: "cached_singleton wr c p = None"
    using register_cached_singleton[OF nv] assms(3) by simp
  have ne: "e \<noteq> NoProvider ?t R" if "get m c ?t w = Some (Inl e, w')" for m e w' R
  proof
    assume "e = NoProvider ?t R"
    with that obtain R' where "resolve m c ?t [] w = Some (Inl (NoProvider ?t R), R', w')"
      by (auto simp: get_def split: option.splits)
    then have "\<not> isConstructorToken ?t"
      by (rule resolve_no_provider_error)
    then show False by (simp add: isConstructorToken_def)
  qed
  have ok: "get (Suc (Suc n)) c ?t w = Some (Inr v, w1)
            \<and> instances (heap w1 c) ?t = Some v
            \<and> (\<forall>m. get (Suc m) c ?t w1 = Some (Inr v, w1))"
    if d: "resolveDependencies (resolve n c) (declaredDeps wr p) [?t] wr
             = Some (Inr vs, R1, wd)"
      and b: "class_new (class_of w k) vs = None"
      and v: "v = Created (length (calls wd))"
      and w1: "w1 = instances_set c ?t v (wd\<lparr>calls := calls wd @ [(p, vs)]\<rparr>)"
    for vs R1 wd v w1
  proof -
    have s: "settled wr c [?t] ?t"
      using l by (rule settled_in_resolving) simp
    have f: "R1 = [?t]" "stable wr wd"
      using resolveDependencies_frame[OF d, of ?t] by auto
    have "classes wd = classes w"
      using f(2) cl by (simp add: stable_def)
    then have body: "provider_body wd p vs = None"
      using b assms(2) by (simp add: provider_body_def class_of_def)
    have cm: "\<not> count_mismatch p vs"
      using assms(2) by (simp add: count_mismatch_def)
    have i: "instantiateProvider (resolve n c) p (set_add ?t []) wr
               = Some (Inr v, [?t], wd\<lparr>calls := calls wd @ [(p, vs)]\<rparr>)"
      using d body cm f(1) v
      by (simp add: instantiateProvider_unfold[OF nv] set_add_def)
    have r: "resolve (Suc n) c ?t [] wr = Some (Inr v, [], w1)"
      by (subst resolve_unsettled[OF l nv cs]) (simp_all add: i lt w1 set_delete_def)
    then have g: "get (Suc (Suc n)) c ?t w = Some (Inr v, w1)"
      using step[of "Suc n"] by (simp add: get_def del: resolve.simps)
    have io: "instances (heap w1 c) ?t = Some v"
      using w1 by (simp add: instances_set_def)
    have "stable wr w1"
      using resolve_restores_stable[OF r] by simp
    then have l1: "lookupProvider w1 c ?t = Some (p, c)"
      using l by (simp add: stable_def)
    have "cached_singleton w1 c p = Some v"
      using io pt lt by (simp add: cached_singleton_def)
    then have "get (Suc m) c ?t w1 = Some (Inr v, w1)" for m
      using resolve_cached[OF l1 nv] by (simp add: get_def del: resolve.simps)
    with g io show ?thesis by blast
  qed
  show ?thesis
    using step l dd lt cs ne ok by blast
qed


lemma world_classes_heap:
  "heap world_classes 0 = \<lparr>providers = [], instances = Map.empty, parent = None,
       debug = False\<rparr>"
  by (simp add: world_classes_def new_DIContainer_def world0_def)

lemma world_classes_calls: "calls world_classes = []"
  by (simp add: world_classes_def new_DIContainer_def world0_def)

lemma world_classes_has: "\<not> has world_classes 0 t"
  by (simp add: has.simps world_classes_heap providers_has_def providers_get_def)

theorem constructor_token_auto_registered_witness:
  "\<not> has world_classes 0 (TCtor 5)
   \<and> get (Suc (Suc 0)) 0 (TCtor 5) world_classes = Some (Inr (Created 0), world_logger)
   \<and> lookupProvider world_logger 0 (TCtor 5) = Some (logger_provider, 0)
   \<and> instances (heap world_logger 0) (TCtor 5) = Some (Created 0)
   \<and> get (Suc 0) 0 (TCtor 5) world_logger = Some (Inr (Created 0), world_logger)"
proof -
  let ?wr = "register 0 logger_provider world_classes"
  note t = constructor_token_auto_registered[where w = world_classes and c = 0 and k = 5
      and p = logger_provider and wr = ?wr and n = 0,
      OF world_classes_has logger_provider_def refl]
  have d: "declaredDeps ?wr logger_provider = []"
    using t by (simp add: getInjectTokens_def class_of_def world_classes_def)
  have r: "resolveDependencies (resolve 0 0) (declaredDeps ?wr logger_provider) [TCtor 5] ?wr
             = Some (Inr [], [TCtor 5], ?wr)"
    by (simp add: d)
  have b: "class_new (class_of world_classes 5) [] = None"
    by (simp add: class_of_def world_classes_def returns_def)
  have c: "calls ?wr = []"
    by (simp add: register_calls world_classes_calls)
  have w1: "world_logger = instances_set 0 (TCtor 5) (Created (length (calls ?wr)))
              (?wr\<lparr>calls := calls ?wr @ [(logger_provider, [])]\<rparr>)"
    by (simp add: world_logger_def c)
  have a: "get (Suc (Suc 0)) 0 (TCtor 5) world_classes = Some (Inr (Created 0), world_logger)
           \<and> instances (heap world_logger 0) (TCtor 5) = Some (Created 0)
           \<and> (\<forall>m. get (Suc m) 0 (TCtor 5) world_logger = Some (Inr (Created 0), world_logger))"
    using t r b w1 c by (metis list.size(3))
  have l: "lookupProvider world_logger 0 (TCtor 5) = Some (logger_provider, 0)"
    by (rule lookupProvider_direct)
       (simp add: world_logger_def instances_set_def register_providers_get
          logger_provider_def)
  show ?thesis
    using a l world_classes_has by blast
qed

text \<open>
  The class \<open>Mailer\<close> has no provider; its \<open>inject\<close> names a token that has none
  either. \<open>get\<close> registers the class and then throws the missing-provider error of
  the dependency: no instance is returned.
\<close>

theorem constructor_token_missing_dependency:
  "\<not> has world_classes 0 (TCtor 6)
   \<and> get 3 0 (TCtor 6) world_classes
       = Some (Inl (NoProvider (TString ''MAIL_CONFIG'') [TCtor 6]),
               register 0 mailer_provider world_classes)"
proof -
  let ?wr = "register 0 mailer_provider world_classes"
  have l0: "lookupProvider world_classes 0 (TCtor 6) = None"
    by (simp add: lookupProvider.simps world_classes_heap providers_get_def)
  have l1: "lookupProvider ?wr 0 (TCtor 6) = Some (mailer_provider, 0)"
    using register_lookup_self[of 0 mailer_provider] by (simp add: mailer_provider_def)
  have nv: "\<not> isValueProvider mailer_provider"
    by (simp add: mailer_provider_def isValueProvider_def)
  have cs: "cached_singleton ?wr 0 mailer_provider = None"
    by (rule register_cached_singleton[OF nv])
  have d: "declaredDeps ?wr mailer_provider = [TString ''MAIL_CONFIG'']"
    by (simp add: declaredDeps_def mailer_provider_def getInjectTokens_def class_of_def
        register_classes world_classes_def)
  have l2: "lookupProvider ?wr 0 (TString ''MAIL_CONFIG'') = None"
    by (simp add: lookupProvider.simps register_heap_same world_classes_heap
        providers_get_def mailer_provider_def)
  have m: "resolve (Suc 0) 0 (TString ''MAIL_CONFIG'') [TCtor 6] ?wr
             = Some (Inl (NoProvider (TString ''MAIL_CONFIG'') [TCtor 6]), [TCtor 6], ?wr)"
    using l2 by simp
  have i: "instantiateProvider (resolve (Suc 0) 0) mailer_provider (set_add (TCtor 6) []) ?wr
             = Some (Inl (NoProvider (TString ''MAIL_CONFIG'') [TCtor 6]), [TCtor 6], ?wr)"
    by (subst instantiateProvider_unfold[OF nv]) (simp add: d set_add_def m del: resolve.simps)
  have r: "resolve (Suc (Suc 0)) 0 (TCtor 6) [] ?wr
             = Some (Inl (NoProvider (TString ''MAIL_CONFIG'') [TCtor 6]), [], ?wr)"
    by (subst resolve_unsettled[OF l1 nv cs]) (simp_all add: i set_delete_def)
  have "resolve (Suc (Suc (Suc 0))) 0 (TCtor 6) [] world_classes
          = resolve (Suc (Suc 0)) 0 (TCtor 6) [] ?wr"
    by (subst resolve.simps(2)) (simp add: l0 mailer_provider_def del: resolve.simps)
  then show ?thesis
    using r world_classes_has by (simp add: get_def numeral_3_eq_3 del: resolve.simps)
qed

section \<open>Termination of the resolution\<close>

subsection \<open>A larger bound changes no answer\<close>

lemma resolveDependencies_mono:
  assumes "\<And>d R w r. rslv d R w = Some r \<Longrightarrow> rslv' d R w = Some r"
    and "resolveDependencies rslv ds R w = Some r"
  shows "resolveDependencies rslv' ds R w = Some r"
  using assms(2)
proof (induction ds arbitrary: R w r)
  case Nil
  then show ?case by simp
next
  case (Cons d ds)
  from Cons.prems obtain r1 R1 w1 where d: "rslv d R w = Some (r1, R1, w1)"
    by (auto split: option.splits)
  then have d': "rslv' d R w = Some (r1, R1, w1)"
    by (rule assms(1))
  show ?case
  proof (cases r1)
    case (Inl e)
    then show ?thesis using Cons.prems d d' by simp
  next
    case (Inr v)
    with Cons.prems d obtain r2 where
      rest: "resolveDependencies rslv ds R1 w1 = Some r2"
      by (auto split: option.splits)
    then have "resolveDependencies rslv' ds R1 w1 = Some r2"
      by (rule Cons.IH)
    then show ?thesis using Cons.prems d d' Inr rest by simp
  qed
qed

lemma instantiateProvider_mono:
  assumes "\<And>d R w r. rslv d R w = Some r \<Longrightarrow> rslv' d R w = Some r"
    and "instantiateProvider rslv p R w = Some r"
  shows "instantiateProvider rslv' p R w = Some r"
proof (cases "isValueProvider p")
  case True
  then show ?thesis
    using assms(2) by (cases p) (simp_all add: instantiateProvider_def isValueProvider_def)
next
  case False
  from assms(2) obtain r1 where
    d: "resolveDependencies rslv (declaredDeps w p) R w = Some r1"
    by (auto simp: instantiateProvider_unfold[OF False] split: option.splits)
  then have "resolveDependencies rslv' (declaredDeps w p) R w = Some r1"
    using assms(1) resolveDependencies_mono by blast
  then show ?thesis
    using assms(2) d by (simp add: instantiateProvider_unfold[OF False])
qed

lemma resolve_mono_Suc:
  "resolve n c t R w = Some (r, R', w') \<Longrightarrow> resolve (Suc n) c t R w = Some (r, R', w')"
proof (induction n arbitrary: t R w r R' w')
  case 0
  then show ?case by simp
next
  case (Suc n)
  have i: "instantiateProvider (resolve (Suc n) c) p R0 w0 = Some r0"
    if "instantiateProvider (resolve n c) p R0 w0 = Some r0" for p R0 w0 r0
  proof (rule instantiateProvider_mono[OF _ that])
    fix d R w r
    assume "resolve n c d R w = Some r"
    then show "resolve (Suc n) c d R w = Some r"
      using Suc.IH by (cases r) (auto simp del: resolve.simps)
  qed
  from Suc.prems show ?case
  proof (cases rule: resolve_cases)
    case (auto_register k)
    have "resolve (Suc n) c t R (register c (ClassProvider t None k None) w)
            = Some (r, R', w')"
      using Suc.IH auto_register(3) by blast
    then show ?thesis
      using auto_register(1,2) by (subst resolve.simps(2)) (simp del: resolve.simps)
  next
    case no_provider
    then show ?thesis by (simp add: resolve_no_provider del: resolve.simps)
  next
    case (provided p owner)
    then show ?thesis by (simp add: resolve_value del: resolve.simps)
  next
    case (cached p owner v)
    then show ?thesis by (simp add: resolve_cached del: resolve.simps)
  next
    case (circular p owner)
    have "provide p = t"
      using circular(1) lookupProvider_owner by blast
    with circular show ?thesis
      by (subst resolve.simps(2))
         (cases p; hypsubst; simp add: isValueProvider_def del: resolve.simps)
  next
    case (created p owner v R1 w1)
    show ?thesis
      unfolding resolve_unsettled[OF created(1-4)] i[OF created(5)]
      using created(6-8) by simp
  next
    case (failed p owner e R1 w1)
    show ?thesis
      unfolding resolve_unsettled[OF failed(1-4)] i[OF failed(5)]
      using failed(6-8) by simp
  qed
qed

lemma resolve_mono: "resolve n c t R w = Some r \<Longrightarrow> n \<le> m \<Longrightarrow> resolve m c t R w = Some r"
proof (induction m)
  case 0
  then show ?case by simp
next
  case (Suc m)
  show ?case
  proof (cases "n = Suc m")
    case True
    then show ?thesis using Suc.prems by simp
  next
    case False
    then have "resolve m c t R w = Some r"
      using Suc by simp
    then show ?thesis
      using resolve_mono_Suc by (cases r) (auto simp del: resolve.simps)
  qed
qed


subsection \<open>Every resolution ends\<close>

lemma finite_mentioned: "finite (mentioned w c)"
  by (auto simp: mentioned_def split: option.splits)

lemma declaredDeps_classes:
  "classes w' = classes w \<Longrightarrow> declaredDeps w' p = declaredDeps w p"
  by (auto simp: declaredDeps_def getInjectTokens_def class_of_def
      split: provider.splits option.splits)

lemma mentioned_cong:
  assumes "classes w' = classes w"
    and "\<And>x. providers (heap w' x) = providers (heap w x)"
  shows "mentioned w' c = mentioned w c"
  using assms declaredDeps_classes[OF assms(1)] by (simp add: mentioned_def)

lemma providers_get_mem: "providers_get ps t = Some p \<Longrightarrow> p \<in> set ps"
  by (induction ps) (auto simp: providers_get_def split: if_splits)

lemma lookupProvider_mentioned:
  assumes "lookupProvider w c t = Some (p, owner)"
  shows "insert t (set (declaredDeps w p)) \<subseteq> mentioned w c"
proof -
  from lookupProvider_owner[OF assms] have
    "p \<in> set (providers (heap w owner))" "owner \<le> c" "provide p = t"
    by (auto intro: providers_get_mem)
  then show ?thesis
    by (fastforce simp: mentioned_def)
qed

lemma set_providers_set: "set (providers_set p ps) \<subseteq> insert p (set ps)"
  by (induction ps) auto

lemma inject_mentioned:
  "set (declaredDeps w (ClassProvider t None k None)) \<subseteq> mentioned w c"
proof (cases "map_of (classes w) k")
  case None
  then show ?thesis
    by (simp add: declaredDeps_def getInjectTokens_def class_of_def)
next
  case (Some d)
  then have "d \<in> snd ` set (classes w)"
    by (force dest: map_of_SomeD)
  then show ?thesis
    using Some
    by (cases "class_inject d")
       (auto simp: declaredDeps_def getInjectTokens_def class_of_def mentioned_def
          intro!: bexI[of _ d])
qed

lemma mentioned_register_auto:
  assumes "mentioned w c \<subseteq> M" and "t \<in> M"
  shows "mentioned (register c (ClassProvider t None k None) w) c \<subseteq> M"
proof -
  let ?p = "ClassProvider t None k None" and ?w = "register c (ClassProvider t None k None) w"
  have cl: "classes ?w = classes w"
    by (rule register_classes)
  have dd: "declaredDeps ?w q = declaredDeps w q" for q
    using cl by (rule declaredDeps_classes)
  have new: "insert (provide ?p) (set (declaredDeps w ?p)) \<subseteq> M"
    using assms inject_mentioned[of w t k c] by auto
  have old: "insert (provide q) (set (declaredDeps w q)) \<subseteq> M"
    if "q \<in> set (providers (heap w x))" "x \<le> c" for q x
    using that assms(1) by (fastforce simp: mentioned_def)
  have "insert (provide q) (set (declaredDeps w q)) \<subseteq> M"
    if "q \<in> set (providers (heap ?w x))" "x \<le> c" for q x
  proof (cases "x = c")
    case True
    then have "q = ?p \<or> q \<in> set (providers (heap w c))"
      using that(1) set_providers_set by (fastforce simp: register_providers)
    then show ?thesis using new old[of q c] by blast
  next
    case False
    then show ?thesis using that old by (simp add: register_providers)
  qed
  moreover have "(\<Union>d \<in> snd ` set (classes w).
                  case class_inject d of Some ds \<Rightarrow> set ds | None \<Rightarrow> {}) \<subseteq> M"
    using assms(1) by (simp add: mentioned_def)
  ultimately show ?thesis
    unfolding mentioned_def cl dd by (auto simp del: insert_subset)
qed

lemma resolve_mentioned:
  "resolve n c t R w = Some (r, R', w') \<Longrightarrow> mentioned w c \<subseteq> M \<Longrightarrow> t \<in> M
     \<Longrightarrow> mentioned w' c \<subseteq> M"
proof (induction n arbitrary: t R w r R' w')
  case 0
  then show ?case by simp
next
  case (Suc n)
  let ?Q = "\<lambda>(a::token list \<times> world) b.
      mentioned (snd a) c \<subseteq> M \<longrightarrow> mentioned (snd b) c \<subseteq> M"
  have inst: "mentioned w1 c \<subseteq> M"
    if "instantiateProvider (resolve n c) p R0 w = Some (r1, R1, w1)" "\<not> isValueProvider p"
      "set (declaredDeps w p) \<subseteq> M"
    for p R0 r1 R1 w1
  proof -
    have "?Q (R0, w) (R1, w1)"
    proof (rule instantiateProvider_rel[where Q = ?Q, OF _ _ _ _ that(2) that(1)])
      fix d R w0 r R' w'
      assume d: "d \<in> set (declaredDeps w p)"
        and run: "resolve n c d R w0 = Some (r, R', w')"
      have "d \<in> M"
        using d that(3) by auto
      then show "?Q (R, w0) (R', w')"
        using Suc.IH[OF run] by simp
    next
      fix R w0 vs
      show "?Q (R, w0) (R, w0\<lparr>calls := calls w0 @ [(p, vs)]\<rparr>)"
        using mentioned_cong[of "w0\<lparr>calls := calls w0 @ [(p, vs)]\<rparr>" w0 c] by simp
    qed auto
    then show ?thesis using Suc.prems(2) by simp
  qed
  have set_inst: "mentioned (instances_set owner t v w1) c = mentioned w1 c" for owner v w1
    by (rule mentioned_cong) (simp_all add: instances_set_def)
  from Suc.prems(1) show ?case
  proof (cases rule: resolve_cases)
    case (auto_register k)
    then show ?thesis
      using Suc.IH[OF auto_register(3)] mentioned_register_auto[OF Suc.prems(2,3)]
        Suc.prems(3) by blast
  next
    case (created p owner v R1 w1)
    have "set (declaredDeps w p) \<subseteq> M"
      using lookupProvider_mentioned[OF created(1)] Suc.prems(2) by auto
    then show ?thesis
      using inst[OF created(5,2)] created(8) set_inst by auto
  next
    case (failed p owner e R1 w1)
    have "set (declaredDeps w p) \<subseteq> M"
      using lookupProvider_mentioned[OF failed(1)] Suc.prems(2) by auto
    then show ?thesis
      using inst[OF failed(5,2)] failed(8) by auto
  qed (use Suc.prems(2) in simp_all)
qed


lemma resolveDependencies_total:
  assumes "\<And>d w. d \<in> set ds \<Longrightarrow> I w \<Longrightarrow> \<exists>r. rslv d R w = Some r"
    and "\<And>d w r R' w'. d \<in> set ds \<Longrightarrow> I w \<Longrightarrow> rslv d R w = Some (r, R', w')
           \<Longrightarrow> R' = R \<and> I w'"
    and "I w"
  shows "\<exists>r. resolveDependencies rslv ds R w = Some r"
  using assms
proof (induction ds arbitrary: w)
  case Nil
  then show ?case by simp
next
  case (Cons d ds)
  from Cons.prems(1)[of d w] Cons.prems(3) obtain r1 R1 w1 where
    d: "rslv d R w = Some (r1, R1, w1)"
    by (metis list.set_intros(1) prod_cases3)
  have p: "R1 = R" "I w1"
    using Cons.prems(2)[OF _ Cons.prems(3) d] by simp_all
  have "\<exists>r. resolveDependencies rslv ds R w1 = Some r"
  proof (rule Cons.IH)
    show "I w1" by (rule p(2))
  next
    fix d' w0
    assume "d' \<in> set ds" "I w0"
    then show "\<exists>r. rslv d' R w0 = Some r"
      using Cons.prems(1)[of d' w0] by simp
  next
    fix d' w0 r R' w'
    assume "d' \<in> set ds" "I w0" "rslv d' R w0 = Some (r, R', w')"
    then show "R' = R \<and> I w'"
      using Cons.prems(2)[of d' w0 r R' w'] by simp
  qed
  then show ?case
    using d p(1) by (cases r1) (auto split: sum.splits)
qed

lemma instantiateProvider_total:
  assumes "\<exists>r. resolveDependencies rslv (declaredDeps w p) R w = Some r"
  shows "\<exists>r. instantiateProvider rslv p R w = Some r"
proof (cases "isValueProvider p")
  case True
  then show ?thesis
    by (cases p) (simp_all add: instantiateProvider_def isValueProvider_def)
next
  case False
  show ?thesis
    using assms
    by (auto simp: instantiateProvider_unfold[OF False] split: option.splits sum.splits)
qed

lemma resolve_circular:
  assumes "lookupProvider w c t = Some (p, owner)" and "\<not> isValueProvider p"
    and "cached_singleton w owner p = None" and "t \<in> set R"
  shows "resolve (Suc n) c t R w = Some (Inl (CircularDependency R t), R, w)"
proof -
  have "provide p = t"
    using assms(1) lookupProvider_owner by blast
  then show ?thesis
    using assms by (cases p; hypsubst; simp add: isValueProvider_def)
qed

lemma resolve_found_total:
  assumes l: "lookupProvider w c t = Some (p, owner)"
    and inv: "mentioned w c \<subseteq> M"
    and tot: "t \<notin> set R \<Longrightarrow>
        (\<forall>d \<in> M. \<forall>w. mentioned w c \<subseteq> M \<longrightarrow> (\<exists>r. resolve n c d (set_add t R) w = Some r))"
  shows "\<exists>r. resolve (Suc n) c t R w = Some r"
proof (cases "isValueProvider p \<or> cached_singleton w owner p \<noteq> None \<or> t \<in> set R")
  case True
  then consider "isValueProvider p"
    | v where "\<not> isValueProvider p" "cached_singleton w owner p = Some v"
    | "\<not> isValueProvider p" "cached_singleton w owner p = None" "t \<in> set R"
    by (cases "cached_singleton w owner p") auto
  then show ?thesis
  proof cases
    case 1
    then show ?thesis using resolve_value[OF l] by blast
  next
    case 2
    then show ?thesis using resolve_cached[OF l] by blast
  next
    case 3
    then show ?thesis using resolve_circular[OF l] by blast
  qed
next
  case False
  then have nv: "\<not> isValueProvider p" and nc: "cached_singleton w owner p = None"
    and nr: "t \<notin> set R"
    by auto
  have ds: "set (declaredDeps w p) \<subseteq> M"
    using lookupProvider_mentioned[OF l] inv by auto
  have "\<exists>r. resolveDependencies (resolve n c) (declaredDeps w p) (set_add t R) w = Some r"
  proof (rule resolveDependencies_total[where I = "\<lambda>w. mentioned w c \<subseteq> M"])
    show "mentioned w c \<subseteq> M" by (rule inv)
  next
    fix d w0
    assume "d \<in> set (declaredDeps w p)" "mentioned w0 c \<subseteq> M"
    then show "\<exists>r. resolve n c d (set_add t R) w0 = Some r"
      using tot[OF nr] ds by blast
  next
    fix d w0 r R' w'
    assume "d \<in> set (declaredDeps w p)" "mentioned w0 c \<subseteq> M"
      "resolve n c d (set_add t R) w0 = Some (r, R', w')"
    then show "R' = set_add t R \<and> mentioned w' c \<subseteq> M"
      using resolve_restores_stable resolve_mentioned ds by blast
  qed
  then obtain r where "instantiateProvider (resolve n c) p (set_add t R) w = Some r"
    using instantiateProvider_total by blast
  then show ?thesis
    unfolding resolve_unsettled[OF l nv nc nr]
    by (cases r) (auto split: sum.splits)
qed

lemma resolve_step_total:
  assumes inv: "mentioned w c \<subseteq> M" and tM: "t \<in> M"
    and tot: "t \<notin> set R \<Longrightarrow>
        (\<forall>d \<in> M. \<forall>w. mentioned w c \<subseteq> M \<longrightarrow> (\<exists>r. resolve n c d (set_add t R) w = Some r))"
  shows "\<exists>r. resolve (Suc (Suc n)) c t R w = Some r"
proof (cases "lookupProvider w c t")
  case (Some x)
  then obtain p owner where "lookupProvider w c t = Some (p, owner)"
    by (cases x) auto
  then obtain r where "resolve (Suc n) c t R w = Some r"
    using resolve_found_total[OF _ inv tot] by blast
  then have "resolve (Suc (Suc n)) c t R w = Some r"
    by (rule resolve_mono) simp
  then show ?thesis by blast
next
  case None
  show ?thesis
  proof (cases "isConstructorToken t")
    case False
    then show ?thesis
      using None resolve_no_provider by blast
  next
    case True
    then obtain k where k: "t = TCtor k"
      by (cases t) (auto simp: isConstructorToken_def)
    let ?p = "ClassProvider t None k None"
    let ?w = "register c ?p w"
    have "lookupProvider ?w c t = Some (?p, c)"
      using register_lookup_self[of c ?p w] by simp
    moreover have "mentioned ?w c \<subseteq> M"
      using inv tM by (rule mentioned_register_auto)
    ultimately obtain r where "resolve (Suc n) c t R ?w = Some r"
      using resolve_found_total[OF _ _ tot] by blast
    then have "resolve (Suc (Suc n)) c t R w = Some r"
      using None k by (subst resolve.simps(2)) (simp del: resolve.simps)
    then show ?thesis by blast
  qed
qed

lemma resolve_progress:
  assumes "finite M"
  shows "mentioned w c \<subseteq> M \<Longrightarrow> t \<in> M \<Longrightarrow> card (M - set R) \<le> m
           \<Longrightarrow> \<exists>r. resolve (Suc (Suc (2 * m))) c t R w = Some r"
proof (induction m arbitrary: t R w)
  case 0
  then have "t \<in> set R"
    using assms by auto
  then show ?case
    using resolve_step_total[OF "0.prems"(1,2), of R 0] by simp
next
  case (Suc m)
  have "\<exists>r. resolve (Suc (Suc (2 * m))) c d (set_add t R) w0 = Some r"
    if "t \<notin> set R" "d \<in> M" "mentioned w0 c \<subseteq> M" for d w0
  proof (rule Suc.IH[OF that(3,2)])
    have "M - set (set_add t R) = (M - set R) - {t}"
      by (auto simp: set_set_add)
    moreover have "t \<in> M - set R"
      using that(1) Suc.prems(2) by simp
    ultimately have "card (M - set (set_add t R)) < card (M - set R)"
      using assms card_Diff1_less[of "M - set R" t] by simp
    then show "card (M - set (set_add t R)) \<le> m"
      using Suc.prems(3) by simp
  qed
  then show ?case
    using resolve_step_total[OF Suc.prems(1,2), of R "Suc (Suc (2 * m))"] by simp
qed

lemma resolve_total: "\<exists>n r. resolve n c t R w = Some r"
proof -
  let ?M = "insert t (mentioned w c)"
  have "finite ?M"
    by (simp add: finite_mentioned)
  then show ?thesis
    using resolve_progress[of ?M w c t R "card (?M - set R)"] by blast
qed

lemma get_total: "\<exists>n r. get n c t w = Some r"
proof -
  obtain n r where "resolve n c t [] w = Some r"
    using resolve_total by blast
  then show ?thesis
    by (cases r) (auto simp: get_def intro!: exI[of _ n])
qed

section \<open>Circular dependencies\<close>

subsection \<open>The dependency declarations do not change\<close>

lemma lookupProvider_register_other:
  assumes "t \<noteq> provide p"
  shows "lookupProvider (register c p w) c' t = lookupProvider w c' t"
proof (induction c' rule: less_induct)
  case (less c')
  have "providers_get (providers (heap (register c p w) c')) t
          = providers_get (providers (heap w c')) t"
    using assms by (simp add: register_providers providers_get_set)
  then show ?case
    using less
    by (subst lookupProvider.simps, subst (2) lookupProvider.simps)
       (auto simp: register_parent split: option.splits)
qed

lemma effective_cong:
  assumes "\<And>x. providers (heap w' x) = providers (heap w x)"
    and "\<And>x. parent (heap w' x) = parent (heap w x)"
  shows "effective w' c = effective w c"
  using lookupProvider_cong[OF assms] by (simp add: effective_def fun_eq_iff)

lemma effective_register_auto:
  assumes "lookupProvider w c t = None" and "t = TCtor k"
  shows "effective (register c (ClassProvider t None k None) w) c = effective w c"
proof
  fix u
  show "effective (register c (ClassProvider t None k None) w) c u = effective w c u"
  proof (cases "u = t")
    case True
    then show ?thesis
      using assms register_lookup_self[of c "ClassProvider t None k None" w]
      by (simp add: effective_def)
  next
    case False
    then show ?thesis
      by (simp add: effective_def lookupProvider_register_other)
  qed
qed


lemma same_deps_refl: "same_deps c w w"
  by (simp add: same_deps_def)

lemma same_deps_trans: "same_deps c w1 w2 \<Longrightarrow> same_deps c w2 w3 \<Longrightarrow> same_deps c w1 w3"
  by (simp add: same_deps_def)

lemma resolve_same_deps: "resolve n c t R w = Some (r, R', w') \<Longrightarrow> same_deps c w w'"
proof (induction n arbitrary: t R w r R' w')
  case 0
  then show ?case by simp
next
  case (Suc n)
  let ?Q = "\<lambda>(a::token list \<times> world) b. same_deps c (snd a) (snd b)"
  have calls: "same_deps c w0 (w0\<lparr>calls := xs\<rparr>)" for w0 xs
    using effective_cong[of "w0\<lparr>calls := xs\<rparr>" w0 c] by (simp add: same_deps_def)
  have inst: "same_deps c w0 w1"
    if "instantiateProvider (resolve n c) p R0 w0 = Some (r1, R1, w1)" "\<not> isValueProvider p"
    for p R0 w0 r1 R1 w1
  proof -
    have "?Q (R0, w0) (R1, w1)"
    proof (rule instantiateProvider_rel[where Q = ?Q, OF _ _ _ _ that(2) that(1)])
      show "\<And>a b d. ?Q a b \<Longrightarrow> ?Q b d \<Longrightarrow> ?Q a d"
        by (auto intro: same_deps_trans)
    qed (use Suc.IH calls in \<open>auto simp: same_deps_refl\<close>)
    then show ?thesis by simp
  qed
  have set_inst: "same_deps c w1 (instances_set owner t v w1)" for owner v w1
    using effective_cong[of "instances_set owner t v w1" w1 c]
    by (simp add: same_deps_def instances_set_def)
  from Suc.prems show ?case
  proof (cases rule: resolve_cases)
    case (auto_register k)
    have "same_deps c w (register c (ClassProvider t None k None) w)"
      using effective_register_auto[OF auto_register(1,2)]
      by (simp add: same_deps_def register_classes)
    then show ?thesis
      using Suc.IH[OF auto_register(3)] same_deps_trans by blast
  next
    case (created p owner v R1 w1)
    then show ?thesis
      using inst[OF created(5,2)] set_inst by (auto intro: same_deps_trans)
  next
    case (failed p owner e R1 w1)
    then show ?thesis
      using inst[OF failed(5,2)] by auto
  qed (simp_all add: same_deps_refl)
qed



lemma same_deps_declaredDeps: "same_deps c w w' \<Longrightarrow> declaredDeps w' p = declaredDeps w p"
  using declaredDeps_classes[of w' w p] by (simp add: same_deps_def)

lemma same_deps_depends: "same_deps c w w' \<Longrightarrow> depends w' c = depends w c"
  using same_deps_declaredDeps[of c w w']
  by (auto simp: same_deps_def depends_def deps_of_def split: option.splits)


lemma deps_of_lookup:
  "lookupProvider w c t = Some (p, owner) \<Longrightarrow> deps_of w c t = declaredDeps w p"
  by (simp add: deps_of_def effective_def)


subsection \<open>A token that leads to a cycle is never resolved\<close>












subsection \<open>Where an error comes from\<close>

lemma resolveDependencies_error_origin:
  assumes "\<And>d R w r R' w'. rslv d R w = Some (r, R', w') \<Longrightarrow> J w \<Longrightarrow> R' = R \<and> J w'"
    and "resolveDependencies rslv ds R w = Some (Inl e, R', w')" and "J w"
  shows "\<exists>d \<in> set ds. \<exists>wi. J wi \<and> rslv d R wi = Some (Inl e, R', w')"
  using assms(2,3)
proof (induction ds arbitrary: w)
  case Nil
  then show ?case by simp
next
  case (Cons d ds)
  from Cons.prems(1) obtain r1 R1 w1 where d: "rslv d R w = Some (r1, R1, w1)"
    by (auto split: option.splits)
  have j1: "R1 = R" "J w1"
    using assms(1)[OF d Cons.prems(2)] by simp_all
  show ?case
  proof (cases r1)
    case (Inl e1)
    then show ?thesis
      using Cons.prems d by auto
  next
    case (Inr v)
    with Cons.prems(1) d j1(1) have
      "resolveDependencies rslv ds R w1 = Some (Inl e, R', w')"
      by (auto split: option.splits sum.splits)
    then show ?thesis
      using Cons.IH j1(2) by auto
  qed
qed



lemma is_path_Cons:
  "is_path r (y # ys) \<longleftrightarrow> ys = [] \<or> ((y, hd ys) \<in> r \<and> is_path r ys)"
  by (cases ys) auto

lemma set_add_new: "t \<notin> set R \<Longrightarrow> set_add t R = R @ [t]"
  by (simp add: set_add_def)

lemma resolve_origin_step:
  assumes "resolveDependencies (resolve n c) ds R w = Some (Inl e, R', w')"
    and "same_deps c w0 w"
  shows "\<exists>d \<in> set ds. \<exists>wi. same_deps c w0 wi \<and> resolve n c d R wi = Some (Inl e, R', w')"
proof (rule resolveDependencies_error_origin[where J = "same_deps c w0", OF _ assms])
  fix d R w r R' w'
  assume "resolve n c d R w = Some (r, R', w')" "same_deps c w0 w"
  then show "R' = R \<and> same_deps c w0 w'"
    using resolve_restores_stable resolve_same_deps same_deps_trans by blast
qed




subsection \<open>Missing providers\<close>

lemma get_resolve:
  "get n c t w = Some (r, w') \<longleftrightarrow> (\<exists>R'. resolve n c t [] w = Some (r, R', w'))"
  by (auto simp: get_def split: option.splits)

lemma getTokenName_cases:
  "getTokenName w (TString s) = s"
  "getTokenName w (TSymbol i d) = (if d = [] then ''Symbol'' else d)"
  "getTokenName w (TCtor k)
     = (if class_name (class_of w k) = [] then ''AnonymousClass''
        else class_name (class_of w k))"
  by (simp_all add: getTokenName_def)

lemma resolve_first_deps:
  assumes "\<not> isConstructorToken t" and "lookupProvider w c t = None"
  shows "first_deps w c ts t \<Longrightarrow> distinct ts \<Longrightarrow> set ts \<inter> set R = {}
     \<Longrightarrow> resolve (Suc (length ts + n)) c (hd (ts @ [t])) R w
           = Some (Inl (NoProvider t (R @ ts)), R, w)"
proof (induction ts arbitrary: R)
  case Nil
  show ?case
    using resolve_no_provider[OF assms, of n R] by simp
next
  case (Cons a as)
  from Cons.prems(1) obtain p owner where
    l: "lookupProvider w c a = Some (p, owner)" and nv: "\<not> isValueProvider p" and
    nc: "cached_singleton w owner p = None" and
    d: "take 1 (declaredDeps w p) = [hd (as @ [t])]" and
    rest: "first_deps w c as t"
    by (auto split: option.splits)
  from d obtain ds where ds: "declaredDeps w p = hd (as @ [t]) # ds"
    by (cases "declaredDeps w p") auto
  have nr: "a \<notin> set R"
    using Cons.prems(3) by auto
  have sa: "set_add a R = R @ [a]"
    using nr by (rule set_add_new)
  have "set as \<inter> set (R @ [a]) = {}"
    using Cons.prems(2,3) by auto
  then have ih: "resolve (Suc (length as + n)) c (hd (as @ [t])) (R @ [a]) w
                   = Some (Inl (NoProvider t ((R @ [a]) @ as)), R @ [a], w)"
    using Cons.IH[OF rest] Cons.prems(2) by simp
  have i: "instantiateProvider (resolve (Suc (length as + n)) c) p (R @ [a]) w
             = Some (Inl (NoProvider t (R @ a # as)), R @ [a], w)"
    unfolding instantiateProvider_unfold[OF nv] ds using ih
    by (simp del: resolve.simps)
  have "resolve (Suc (Suc (length as + n))) c a R w
          = Some (Inl (NoProvider t (R @ a # as)), R, w)"
    unfolding resolve_unsettled[OF l nv nc nr] sa i
    using nr by (simp add: set_delete_def del: resolve.simps)
  then show ?case
    by (simp del: resolve.simps)
qed

lemma resolve_missing_chain:
  "resolve n c t R w = Some (Inl (NoProvider u ch), R', w') \<Longrightarrow> same_deps c w0 w
     \<Longrightarrow> \<exists>path. ch = R @ path \<and> hd (path @ [u]) = t
           \<and> is_path (depends w0 c) (path @ [u])"
proof (induction n arbitrary: t R w R' w')
  case 0
  then show ?case by simp
next
  case (Suc n)
  note sd = Suc.prems(2)
  from Suc.prems(1) show ?case
  proof (cases rule: resolve_cases)
    case (auto_register k)
    have "same_deps c w (register c (ClassProvider t None k None) w)"
      using effective_register_auto[OF auto_register(1,2)]
      by (simp add: same_deps_def register_classes)
    then show ?thesis
      using Suc.IH[OF auto_register(3)] sd same_deps_trans by blast
  next
    case no_provider
    then show ?thesis by (intro exI[of _ "[]"]) simp
  next
    case (failed p owner e R1 w1)
    from failed(5,2) show ?thesis
    proof (cases rule: instantiateProvider_cases)
      case (deps_failed e')
      then have e': "e' = NoProvider u ch"
        using failed(6) by simp
      from resolve_origin_step[OF deps_failed(1) sd] obtain d wi where
        d: "d \<in> set (declaredDeps w p)" "same_deps c w0 wi"
          "resolve n c d (set_add t R) wi = Some (Inl e', R1, w1)"
        by blast
      from Suc.IH[OF d(3)[unfolded e'] d(2)] obtain path where
        p: "ch = set_add t R @ path" "hd (path @ [u]) = d"
          "is_path (depends w0 c) (path @ [u])"
        by blast
      have "(t, d) \<in> depends w c"
        using d(1) deps_of_lookup[OF failed(1)] by (simp add: depends_def)
      then have td: "(t, d) \<in> depends w0 c"
        using same_deps_depends[OF sd] by simp
      show ?thesis
        using p td failed(4)
        by (intro exI[of _ "t # path"]) (simp add: set_add_new is_path_Cons)
    next
      case (mismatch vs)
      then show ?thesis using failed(6) by (simp add: mismatch_error_def)
    next
      case (threw vs wd msg)
      then show ?thesis using failed(6) by (cases p) (simp_all add: invoke_failure_def)
    qed simp
  qed simp_all
qed

text \<open>
  C2. A token \<open>t\<close> that is not a class constructor and has no provider in the
  container or in any ancestor makes \<open>get\<close> throw the missing-provider error, with
  an empty chain. The same holds inside a resolution, whatever the tokens \<open>R\<close> being
  resolved are, and so for \<open>get\<close> on a token that depends on \<open>t\<close>: when each
  token of \<open>ts\<close> has a class or factory provider with no cached instance whose first
  dependency is the next token, and \<open>t\<close> for the last one, \<open>get\<close> on the first
  token throws the missing-provider error of \<open>t\<close> with the chain \<open>ts\<close>. Whenever
  \<open>get\<close> on a token throws the missing-provider error of \<open>t\<close>, its chain starts
  with that token, and each token of the chain depends on the next one and the last one
  on \<open>t\<close>. The message names the token and, when the chain is not empty, holds the
  names of the chain followed by the name of the token. The name of a string token is
  the string, the name of a symbol is its description and the name of a class is the
  name of the class; \<open>Symbol\<close> and \<open>AnonymousClass\<close> stand for an empty one.
\<close>

theorem missing_provider_error:
  assumes "\<not> isConstructorToken t" and "\<not> has w c t"
  shows "get (Suc n) c t w = Some (Inl (NoProvider t []), w)
       \<and> resolve (Suc n) c t R w = Some (Inl (NoProvider t R), R, w)
       \<and> (\<forall>ts. ts \<noteq> [] \<and> distinct ts \<and> first_deps w c ts t \<longrightarrow>
            get (Suc (length ts + n)) c (hd ts) w = Some (Inl (NoProvider t ts), w))
       \<and> (\<forall>m t0 ch w'. get m c t0 w = Some (Inl (NoProvider t ch), w') \<longrightarrow>
            hd (ch @ [t]) = t0 \<and> is_path (depends w c) (ch @ [t]))
       \<and> sublist (''No provider found for '' @ dq @ getTokenName w t @ dq)
                 (error_message w (NoProvider t R))
       \<and> (R \<noteq> [] \<longrightarrow>
            sublist (''Dependency chain: '' @ join '' -> '' (map (getTokenName w) R)
                       @ '' -> '' @ getTokenName w t)
                    (error_message w (NoProvider t R)))
       \<and> (\<forall>s. getTokenName w (TString s) = s)
       \<and> (\<forall>i d. getTokenName w (TSymbol i d) = (if d = [] then ''Symbol'' else d))
       \<and> (\<forall>k. getTokenName w (TCtor k)
                = (if class_name (class_of w k) = [] then ''AnonymousClass''
                   else class_name (class_of w k)))"
proof -
  have l: "lookupProvider w c t = None"
    using assms(2) has_iff_lookup[of w c t] by (cases "lookupProvider w c t") auto
  have r: "resolve (Suc n) c t R w = Some (Inl (NoProvider t R), R, w)" for R
    using assms(1) l by (rule resolve_no_provider)
  have g: "get (Suc n) c t w = Some (Inl (NoProvider t []), w)"
    using r[of "[]"] by (simp add: get_def del: resolve.simps)
  have nested: "get (Suc (length ts + n)) c (hd ts) w = Some (Inl (NoProvider t ts), w)"
    if "ts \<noteq> []" "distinct ts" "first_deps w c ts t" for ts
  proof -
    have "resolve (Suc (length ts + n)) c (hd (ts @ [t])) [] w
            = Some (Inl (NoProvider t ([] @ ts)), [], w)"
      using that by (intro resolve_first_deps[OF assms(1) l]) simp_all
    then show ?thesis
      using that(1) by (simp add: get_def del: resolve.simps)
  qed
  have chain: "hd (ch @ [t]) = t0 \<and> is_path (depends w c) (ch @ [t])"
    if "get m c t0 w = Some (Inl (NoProvider t ch), w')" for m t0 ch w'
  proof -
    from that obtain R' where
      "resolve m c t0 [] w = Some (Inl (NoProvider t ch), R', w')"
      by (auto simp: get_resolve)
    from resolve_missing_chain[OF this same_deps_refl] show ?thesis
      by auto
  qed
  have m1: "sublist (''No provider found for '' @ dq @ getTokenName w t @ dq)
                 (error_message w (NoProvider t R))"
    using no_provider_message_names by (simp add: error_message_def)
  have m2: "R \<noteq> [] \<longrightarrow>
            sublist (''Dependency chain: '' @ join '' -> '' (map (getTokenName w) R)
                       @ '' -> '' @ getTokenName w t)
                    (error_message w (NoProvider t R))"
    using no_provider_message_chain by (simp add: error_message_def)
  show ?thesis
    using g r nested chain m1 m2 getTokenName_cases by blast
qed

lemma world_nested_heap:
  "heap world_nested 0 = \<lparr>providers = [nested_app, nested_mailer], instances = Map.empty,
       parent = None, debug = False\<rparr>"
  "classes world_nested = [(6, ClassDef ''Mailer'' (Some [TSymbol 4 ''MailConfig'']) returns)]"
  by (simp_all add: world_nested_def registerMany_def register_def new_DIContainer_def
      world0_def providers_has_def providers_get_def Let_def nested_app_def
      nested_mailer_def)

lemma world_nested_lookup:
  "lookupProvider world_nested 0 (TString ''App'') = Some (nested_app, 0)"
  "lookupProvider world_nested 0 (TCtor 6) = Some (nested_mailer, 0)"
  "lookupProvider world_nested 0 (TSymbol 4 ''MailConfig'') = None"
  by (simp_all add: lookupProvider.simps world_nested_heap providers_get_def nested_app_def
      nested_mailer_def)

theorem missing_provider_error_witness:
  "\<not> isConstructorToken (TSymbol 4 ''MailConfig'')
   \<and> \<not> has world_nested 0 (TSymbol 4 ''MailConfig'')
   \<and> get (Suc 0) 0 (TSymbol 4 ''MailConfig'') world_nested
       = Some (Inl (NoProvider (TSymbol 4 ''MailConfig'') []), world_nested)
   \<and> first_deps world_nested 0 [TString ''App'', TCtor 6] (TSymbol 4 ''MailConfig'')
   \<and> get (Suc (Suc (Suc 0))) 0 (TString ''App'') world_nested
       = Some (Inl (NoProvider (TSymbol 4 ''MailConfig'') [TString ''App'', TCtor 6]),
               world_nested)
   \<and> is_path (depends world_nested 0)
        [TString ''App'', TCtor 6, TSymbol 4 ''MailConfig'']
   \<and> error_message world_nested
        (NoProvider (TSymbol 4 ''MailConfig'') [TString ''App'', TCtor 6])
       = ''[DI Container] No provider found for '' @ dq @ ''MailConfig'' @ dq @ ''.'' @ nl
         @ ''Dependency chain: App -> Mailer -> MailConfig'' @ nl
         @ ''Make sure you've added it to your module's providers array:'' @ nl
         @ ''  providers: [MailConfig.provider]''"
proof -
  let ?M = "TSymbol 4 ''MailConfig''"
  have h1: "\<not> isConstructorToken ?M"
    by (simp add: isConstructorToken_def)
  have h2: "\<not> has world_nested 0 ?M"
    by (simp add: has_iff_lookup world_nested_lookup)
  note t = missing_provider_error[OF h1 h2, of 0 "[TString ''App'', TCtor 6]"]
  have f: "first_deps world_nested 0 [TString ''App'', TCtor 6] ?M"
    by (simp add: world_nested_lookup isValueProvider_def nested_app_def nested_mailer_def
        cached_singleton_def world_nested_heap declaredDeps_def getInjectTokens_def
        class_of_def)
  have g0: "get (Suc 0) 0 ?M world_nested = Some (Inl (NoProvider ?M []), world_nested)"
    using t[THEN conjunct1] .
  have "[TString ''App'', TCtor 6] \<noteq> [] \<and> distinct [TString ''App'', TCtor 6]
        \<and> first_deps world_nested 0 [TString ''App'', TCtor 6] ?M"
    using f by simp
  then have g: "get (Suc (Suc (Suc 0))) 0 (TString ''App'') world_nested
       = Some (Inl (NoProvider ?M [TString ''App'', TCtor 6]), world_nested)"
    using t[THEN conjunct2, THEN conjunct2, THEN conjunct1,
            THEN spec, of "[TString ''App'', TCtor 6]"]
    by simp
  have pth: "is_path (depends world_nested 0) ([TString ''App'', TCtor 6] @ [?M])"
    using t[THEN conjunct2, THEN conjunct2, THEN conjunct2, THEN conjunct1] g by blast
  have msg: "error_message world_nested (NoProvider ?M [TString ''App'', TCtor 6])
       = ''[DI Container] No provider found for '' @ dq @ ''MailConfig'' @ dq @ ''.'' @ nl
         @ ''Dependency chain: App -> Mailer -> MailConfig'' @ nl
         @ ''Make sure you've added it to your module's providers array:'' @ nl
         @ ''  providers: [MailConfig.provider]''"
    by (simp add: error_message_def no_provider_message_def getTokenName_def class_of_def
        world_nested_heap)
  show ?thesis
    using h1 h2 g0 f g pth msg by simp
qed

subsection \<open>Cycles\<close>



text \<open>
  A token on a cycle none of whose tokens has a cached instance leads to an uncached
  cycle.
\<close>

lemma on_uncached_cycle:
  "(t, t) \<in> (uncached_depends w c)\<^sup>+ \<Longrightarrow> leads_to_uncached_cycle w c t"
  unfolding leads_to_uncached_cycle_def by blast


subsection \<open>The cyclic examples\<close>

lemma lookupProvider_calls: "lookupProvider (w\<lparr>calls := xs\<rparr>) c t = lookupProvider w c t"
  by (rule lookupProvider_cong) simp_all

lemma lookupProvider_instances_set:
  "lookupProvider (instances_set owner u v w) c t = lookupProvider w c t"
  by (rule lookupProvider_cong) (simp_all add: instances_set_def)























section \<open>Imports and exports of modules\<close>

subsection \<open>Containers built earlier\<close>

lemma holds_below:
  assumes "\<And>x. x \<le> d \<Longrightarrow> heap w' x = heap w x"
  shows "holds w' d t v = holds w d t v"
proof -
  have l: "lookupProvider w' d t = lookupProvider w d t"
    by (rule lookupProvider_below) (rule assms)
  show ?thesis
  proof (cases "lookupProvider w d t")
    case None
    then show ?thesis using l by (simp add: holds_def)
  next
    case (Some x)
    obtain p owner where x: "x = (p, owner)" by (cases x)
    have "owner \<le> d"
      using Some x lookupProvider_owner by blast
    then have "cached_singleton w' owner p = cached_singleton w owner p"
      using assms by (simp add: cached_singleton_def)
    then show ?thesis
      using l Some x by (simp add: holds_def)
  qed
qed

lemma lower_refl: "lower c w w"
  by (simp add: lower_def)

lemma lower_trans: "lower c w1 w2 \<Longrightarrow> lower c w2 w3 \<Longrightarrow> lower c w1 w3"
  unfolding lower_def by blast

lemma lower_below:
  assumes "\<And>x. x < c \<Longrightarrow> heap w' x = heap w x"
  shows "lower c w w'"
proof -
  have "lookupProvider w' d t = lookupProvider w d t" "holds w' d t v = holds w d t v"
    if "d < c" for d t v
    using that assms by (auto intro!: lookupProvider_below holds_below)
  then show ?thesis
    by (simp add: lower_def)
qed

lemma holds_shared: "holds w c t v \<Longrightarrow> shared w c t"
  by (auto simp: holds_def shared_def cached_singleton_def split: option.splits if_splits)

lemma shared_has: "shared w c t \<Longrightarrow> has w c t"
  by (auto simp: shared_def has_iff_lookup split: option.splits)

lemma lower_shared: "lower c w w' \<Longrightarrow> d < c \<Longrightarrow> shared w d t \<Longrightarrow> shared w' d t"
  by (fastforce simp: lower_def shared_def split: option.splits)

lemma lower_has: "lower c w w' \<Longrightarrow> d < c \<Longrightarrow> has w d t \<Longrightarrow> has w' d t"
  by (fastforce simp: lower_def has_iff_lookup)

lemma lower_holds: "lower c w w' \<Longrightarrow> d < c \<Longrightarrow> holds w d t v \<Longrightarrow> holds w' d t v"
  by (simp add: lower_def)

subsection \<open>Cached instances stay\<close>

lemma retains_refl: "retains w w"
  by (simp add: retains_def)

lemma providers_has_stable:
  assumes "stable w w'" and "providers_has (providers (heap w x)) t"
  shows "providers_has (providers (heap w' x)) t"
proof -
  from assms(2) obtain p where "providers_get (providers (heap w x)) t = Some p"
    by (auto simp: providers_has_def)
  then have "lookupProvider w x t = Some (p, x)"
    by (rule lookupProvider_direct)
  then have "lookupProvider w' x t = Some (p, x)"
    using assms(1) by (simp add: stable_def)
  then show ?thesis
    using lookupProvider_owner by (fastforce simp: providers_has_def)
qed

lemma retains_trans:
  assumes "stable w1 w2" and "retains w1 w2" and "retains w2 w3"
  shows "retains w1 w3"
  unfolding retains_def
proof (intro allI impI)
  fix x t v
  assume a: "providers_has (providers (heap w1 x)) t" "instances (heap w1 x) t = Some v"
  then have "instances (heap w2 x) t = Some v"
    using assms(2) by (simp add: retains_def)
  moreover have "providers_has (providers (heap w2 x)) t"
    using assms(1) a(1) by (rule providers_has_stable)
  ultimately show "instances (heap w3 x) t = Some v"
    using assms(3) by (simp add: retains_def)
qed

lemma retains_calls: "retains w (w\<lparr>calls := xs\<rparr>)"
  by (simp add: retains_def)

lemma retains_register_new:
  assumes "lookupProvider w c (provide p) = None"
  shows "retains w (register c p w)"
  unfolding retains_def
proof (intro allI impI)
  fix x t v
  assume a: "providers_has (providers (heap w x)) t" "instances (heap w x) t = Some v"
  have none: "providers_get (providers (heap w c)) (provide p) = None"
    using assms lookupProvider_direct[of w c "provide p"]
    by (cases "providers_get (providers (heap w c)) (provide p)") auto
  show "instances (heap (register c p w) x) t = Some v"
  proof (cases "x = c")
    case True
    then have "t \<noteq> provide p"
      using a(1) none by (auto simp: providers_has_def)
    then show ?thesis
      using a(2) True by (simp add: register_instances)
  next
    case False
    then show ?thesis
      using a(2) by (simp add: register_heap_other)
  qed
qed

lemma retains_instances_set:
  assumes "retains w w1" and "instances (heap w owner) t = None"
  shows "retains w (instances_set owner t v w1)"
  using assms by (auto simp: retains_def instances_set_def)

lemma frame_refl: "frame c w w"
  by (simp add: frame_def stable_refl retains_refl)

lemma frame_trans:
  assumes "frame c w1 w2" and "frame c w2 w3"
  shows "frame c w1 w3"
proof -
  have "stable w1 w3"
    using assms stable_trans unfolding frame_def by blast
  moreover have "retains w1 w3"
    using assms retains_trans unfolding frame_def by blast
  moreover have "heap w3 x = heap w1 x" if "c < x" for x
    using assms that by (simp add: frame_def)
  moreover have "providers_get (providers (heap w3 x)) u = providers_get (providers (heap w1 x)) u"
    if "\<not> isConstructorToken u" for u x
    using assms that by (simp add: frame_def)
  ultimately show ?thesis
    by (simp add: frame_def)
qed

lemma frame_calls: "frame c w (w\<lparr>calls := xs\<rparr>)"
  by (simp add: frame_def stable_calls retains_calls)

lemma frame_register_auto:
  assumes "lookupProvider w c t = None" and "t = TCtor k"
  shows "frame c w (register c (ClassProvider t None k None) w)"
proof -
  let ?w = "register c (ClassProvider t None k None) w"
  have "stable w ?w"
    using assms(1) by (intro stable_register_new) simp
  moreover have "retains w ?w"
    using assms(1) by (intro retains_register_new) simp
  moreover have "heap ?w x = heap w x" if "c < x" for x
    using that by (simp add: register_heap_other)
  moreover have "providers_get (providers (heap ?w x)) u = providers_get (providers (heap w x)) u"
    if "\<not> isConstructorToken u" for u x
    using that assms(2)
    by (auto simp: register_providers providers_get_set isConstructorToken_def)
  ultimately show ?thesis
    by (simp add: frame_def)
qed

lemma frame_instances_set:
  assumes "frame c w w1" and "instances (heap w owner) t = None" and "owner \<le> c"
  shows "frame c w (instances_set owner t v w1)"
proof -
  let ?w = "instances_set owner t v w1"
  have "stable w ?w"
    using assms(1) stable_instances_set stable_trans unfolding frame_def by blast
  moreover have "retains w ?w"
    using assms(1,2) by (intro retains_instances_set) (simp_all add: frame_def)
  moreover have "heap ?w x = heap w x" if "c < x" for x
    using that assms(1,3) by (simp add: instances_set_def frame_def)
  moreover have "providers_get (providers (heap ?w x)) u = providers_get (providers (heap w x)) u"
    if "\<not> isConstructorToken u" for u x
    using that assms(1) by (simp add: instances_set_def frame_def)
  ultimately show ?thesis
    by (simp add: frame_def)
qed

lemma resolve_frame: "resolve n c t R w = Some (r, R', w') \<Longrightarrow> frame c w w'"
proof (induction n arbitrary: t R w r R' w')
  case 0
  then show ?case by simp
next
  case (Suc n)
  let ?Q = "\<lambda>(a::token list \<times> world) b. frame c (snd a) (snd b)"
  have inst: "frame c w0 w1"
    if "instantiateProvider (resolve n c) p R0 w0 = Some (r1, R1, w1)" "\<not> isValueProvider p"
    for p R0 w0 r1 R1 w1
  proof -
    have "?Q (R0, w0) (R1, w1)"
    proof (rule instantiateProvider_rel[where Q = ?Q, OF _ _ _ _ that(2) that(1)])
      show "\<And>a b d. ?Q a b \<Longrightarrow> ?Q b d \<Longrightarrow> ?Q a d"
        by (auto intro: frame_trans)
    qed (use Suc.IH in \<open>auto simp: frame_refl frame_calls\<close>)
    then show ?thesis by simp
  qed
  from Suc.prems show ?case
  proof (cases rule: resolve_cases)
    case (auto_register k)
    then show ?thesis
      using frame_register_auto[OF auto_register(1,2)] Suc.IH[OF auto_register(3)] frame_trans
      by blast
  next
    case (created p owner v R1 w1)
    have f1: "frame c w w1"
      using inst[OF created(5,2)] .
    have pt: "provide p = t" and ow: "owner \<le> c"
      using created(1) lookupProvider_owner by blast+
    show ?thesis
    proof (cases "lifetime_of p = Singleton")
      case True
      then have none: "instances (heap w owner) t = None"
        using created(3) pt by (simp add: cached_singleton_def)
      show ?thesis
        using frame_instances_set[OF f1 none ow] created(8) True by simp
    next
      case False
      then show ?thesis using f1 created(8) by simp
    qed
  next
    case (failed p owner e R1 w1)
    then show ?thesis
      using inst[OF failed(5,2)] by simp
  qed (simp_all add: frame_refl)
qed

lemma get_frame: "get n c t w = Some (r, w') \<Longrightarrow> frame c w w'"
  using resolve_frame by (auto simp: get_def split: option.splits)

lemma holds_preserved:
  assumes "holds w c t v" and "stable w w'" and "retains w w'"
  shows "holds w' c t v"
proof -
  from assms(1) obtain p owner where
    l: "lookupProvider w c t = Some (p, owner)" and
    d: "if isValueProvider p then useValue p = v else cached_singleton w owner p = Some v"
    by (auto simp: holds_def split: option.splits)
  have l': "lookupProvider w' c t = Some (p, owner)"
    using l assms(2) by (simp add: stable_def)
  have o: "providers_get (providers (heap w owner)) t = Some p" "provide p = t"
    using l lookupProvider_owner by blast+
  have "cached_singleton w' owner p = Some v" if "cached_singleton w owner p = Some v"
    using that assms(3) o
    by (auto simp: cached_singleton_def retains_def providers_has_def split: if_splits)
  with l' d show ?thesis
    by (auto simp: holds_def split: if_splits)
qed

lemma frame_lower:
  assumes "frame ic w w'"
  shows "lower c w w'"
proof -
  have "stable w w'" "retains w w'"
    using assms by (simp_all add: frame_def)
  then show ?thesis
    unfolding lower_def using holds_preserved[of w _ _ _ w'] by (simp add: stable_def)
qed

lemma get_lower: "get n ic t w = Some (r, w') \<Longrightarrow> lower c w w'"
  using get_frame frame_lower by blast

lemma holds_get:
  assumes "holds w c t v"
  shows "get (Suc k) c t w = Some (Inr v, w)"
proof -
  from assms obtain p owner where
    l: "lookupProvider w c t = Some (p, owner)" and
    d: "if isValueProvider p then useValue p = v else cached_singleton w owner p = Some v"
    by (auto simp: holds_def split: option.splits)
  show ?thesis
  proof (cases "isValueProvider p")
    case True
    then show ?thesis
      using resolve_value[OF l True, of k "[]"] d by (simp add: get_def del: resolve.simps)
  next
    case False
    then show ?thesis
      using resolve_cached[OF l False, of v k "[]"] d by (simp add: get_def del: resolve.simps)
  qed
qed

lemma get_holds:
  assumes "get n c t w = Some (Inr v, w')" and "shared w c t"
  shows "holds w' c t v"
proof -
  from assms(1) obtain R' where r: "resolve n c t [] w = Some (Inr v, R', w')"
    by (auto simp: get_def split: option.splits)
  then obtain m where n: "n = Suc m"
    by (cases n) auto
  from assms(2) obtain q qo where
    lq: "lookupProvider w c t = Some (q, qo)" and sq: "isValueProvider q \<or> lifetime_of q = Singleton"
    by (auto simp: shared_def split: option.splits)
  have st: "stable w w'"
    using resolve_restores_stable[OF r] by simp
  then have l': "lookupProvider w' c t = Some (q, qo)"
    using lq by (simp add: stable_def)
  from r[unfolded n] show ?thesis
  proof (cases rule: resolve_cases)
    case (auto_register k)
    then show ?thesis using lq by simp
  next
    case no_provider
    then show ?thesis by simp
  next
    case (provided p owner)
    then show ?thesis using lq by (auto simp: holds_def)
  next
    case (cached p owner u)
    then show ?thesis using lq by (auto simp: holds_def)
  next
    case (circular p owner)
    then show ?thesis by simp
  next
    case (created p owner u R1 w1)
    have pq: "p = q" "owner = qo"
      using created(1) lq by simp_all
    have pt: "provide p = t"
      using created(1) lookupProvider_owner by blast
    have "lifetime_of p = Singleton"
      using sq created(2) pq by simp
    then have "cached_singleton w' owner p = Some v"
      using created(6,8) pt by (simp add: cached_singleton_def instances_set_def)
    then show ?thesis
      using l' pq created(2) by (simp add: holds_def)
  next
    case (failed p owner e R1 w1)
    then show ?thesis by simp
  qed
qed


subsection \<open>The imports of a module\<close>

lemma registerValue_lower: "lower c w (registerValue c t v w)"
  by (rule lower_below) (simp add: registerValue_def register_heap_other)

lemma registerValue_providers_get:
  "providers_get (providers (heap (registerValue c t v w) c)) u
     = (if u = t then Some (ValueProvider t None v) else providers_get (providers (heap w c)) u)"
  by (simp add: registerValue_def register_providers_get)

lemma get_heap_above: "get n ic t w = Some (r, w') \<Longrightarrow> ic < c \<Longrightarrow> heap w' c = heap w c"
  using get_frame[of n ic t w r w'] by (simp add: frame_def)

lemma get_parent: "get n ic t w = Some (r, w') \<Longrightarrow> parent (heap w' x) = parent (heap w x)"
  using get_frame[of n ic t w r w'] by (simp add: frame_def stable_def)

lemma import_exports_Cons_cases [consumes 1, case_names skipped taken]:
  assumes "import_exports n c ic (t # ts) w = Some (Inr u, w')"
  obtains "\<not> has w ic t" "import_exports n c ic ts w = Some (Inr u, w')"
  | v w1 where "has w ic t" "get n ic t w = Some (Inr v, w1)"
      "import_exports n c ic ts (registerValue c t v w1) = Some (Inr u, w')"
  using assms by (auto split: if_splits option.splits sum.splits prod.splits)

lemma import_exports_lower:
  "import_exports n c ic ts w = Some (Inr u, w') \<Longrightarrow> lower c w w'"
proof (induction ts arbitrary: w)
  case Nil
  then show ?case by (simp add: lower_refl)
next
  case (Cons t ts)
  from Cons.prems show ?case
  proof (cases rule: import_exports_Cons_cases)
    case skipped
    then show ?thesis using Cons.IH by simp
  next
    case (taken v w1)
    then show ?thesis
      using Cons.IH[OF taken(3)] get_lower[OF taken(2), of c] registerValue_lower[of c w1 t v]
        lower_trans
      by blast
  qed
qed

lemma import_exports_parent:
  "import_exports n c ic ts w = Some (Inr u, w') \<Longrightarrow> parent (heap w' x) = parent (heap w x)"
proof (induction ts arbitrary: w)
  case Nil
  then show ?case by simp
next
  case (Cons t ts)
  from Cons.prems show ?case
  proof (cases rule: import_exports_Cons_cases)
    case skipped
    then show ?thesis using Cons.IH by simp
  next
    case (taken v w1)
    then show ?thesis
      using Cons.IH[OF taken(3)] get_parent[OF taken(2), of x]
      by (simp add: registerValue_def register_parent)
  qed
qed

lemma import_exports_keeps:
  assumes "import_exports n c ic ts w = Some (Inr u, w')" and "ic < c" and "t \<notin> set ts"
  shows "providers_get (providers (heap w' c)) t = providers_get (providers (heap w c)) t"
  using assms
proof (induction ts arbitrary: w)
  case Nil
  then show ?case by simp
next
  case (Cons t' ts)
  from Cons.prems(1) show ?case
  proof (cases rule: import_exports_Cons_cases)
    case skipped
    then show ?thesis using Cons.IH[OF skipped(2)] Cons.prems by simp
  next
    case (taken v w1)
    have "providers_get (providers (heap w' c)) t
            = providers_get (providers (heap (registerValue c t' v w1) c)) t"
      using Cons.IH[OF taken(3)] Cons.prems by simp
    also have "\<dots> = providers_get (providers (heap w1 c)) t"
      using Cons.prems(3) by (simp add: registerValue_providers_get)
    also have "\<dots> = providers_get (providers (heap w c)) t"
      using get_heap_above[OF taken(2) Cons.prems(2)] by simp
    finally show ?thesis .
  qed
qed

lemma import_exports_has:
  assumes "import_exports n c ic ts w = Some (Inr u, w')" and "ic < c"
    and "providers_has (providers (heap w c)) t \<or> (t \<in> set ts \<and> has w ic t)"
  shows "providers_has (providers (heap w' c)) t"
  using assms
proof (induction ts arbitrary: w)
  case Nil
  then show ?case by simp
next
  case (Cons t' ts)
  from Cons.prems(1) show ?case
  proof (cases rule: import_exports_Cons_cases)
    case skipped
    have "providers_has (providers (heap w c)) t \<or> (t \<in> set ts \<and> has w ic t)"
      using Cons.prems(3) skipped(1) by auto
    then show ?thesis
      using Cons.IH[OF skipped(2) Cons.prems(2)] by simp
  next
    case (taken v w1)
    let ?w2 = "registerValue c t' v w1"
    have lw: "lower c w ?w2"
      using get_lower[OF taken(2), of c] registerValue_lower[of c w1 t' v] lower_trans by blast
    have hc: "heap w1 c = heap w c"
      using get_heap_above[OF taken(2) Cons.prems(2)] .
    have "providers_has (providers (heap ?w2 c)) t \<or> (t \<in> set ts \<and> has ?w2 ic t)"
    proof (cases "t = t'")
      case True
      then show ?thesis
        by (simp add: providers_has_def registerValue_providers_get)
    next
      case False
      show ?thesis
      proof (cases "providers_has (providers (heap w c)) t")
        case True
        then show ?thesis
          using False hc by (simp add: providers_has_def registerValue_providers_get)
      next
        case F2: False
        then have "t \<in> set ts" "has w ic t"
          using Cons.prems(3) False by auto
        then show ?thesis
          using lower_has[OF lw Cons.prems(2)] by simp
      qed
    qed
    then show ?thesis
      using Cons.IH[OF taken(3) Cons.prems(2)] by simp
  qed
qed

lemma imported_kept:
  assumes "imported w c ic t" and "lower c w w'" and "ic < c"
    and "providers_get (providers (heap w' c)) t = providers_get (providers (heap w c)) t"
  shows "imported w' c ic t"
  using assms lower_holds[OF assms(2,3)]
  by (auto simp: imported_def split: option.splits)

lemma imported_shared: "imported w c ic t \<Longrightarrow> shared w ic t"
  by (auto simp: imported_def dest: holds_shared split: option.splits)

lemma import_exports_imported:
  assumes "import_exports n c ic ts w = Some (Inr u, w')" and "ic < c"
    and "imported w c ic t \<or> (t \<in> set ts \<and> shared w ic t)"
  shows "imported w' c ic t"
  using assms
proof (induction ts arbitrary: w)
  case Nil
  then show ?case by simp
next
  case (Cons t' ts)
  from Cons.prems(1) show ?case
  proof (cases rule: import_exports_Cons_cases)
    case skipped
    have "imported w c ic t \<or> (t \<in> set ts \<and> shared w ic t)"
      using Cons.prems(3) skipped(1) shared_has by auto
    then show ?thesis
      using Cons.IH[OF skipped(2) Cons.prems(2)] by simp
  next
    case (taken v w1)
    let ?w2 = "registerValue c t' v w1"
    have l1: "lower c w w1"
      using get_lower[OF taken(2)] .
    have l2: "lower c w1 ?w2"
      by (rule registerValue_lower)
    have hc: "heap w1 c = heap w c"
      using get_heap_above[OF taken(2) Cons.prems(2)] .
    have "imported ?w2 c ic t \<or> (t \<in> set ts \<and> shared ?w2 ic t)"
    proof (cases "t = t'")
      case True
      have "shared w ic t"
        using Cons.prems(3) imported_shared by blast
      then have "holds w1 ic t v"
        using get_holds[of n ic t w v w1] taken(2) True by simp
      then have "holds ?w2 ic t v"
        using lower_holds[OF l2 Cons.prems(2)] by simp
      then show ?thesis
        using True by (simp add: imported_def registerValue_providers_get)
    next
      case False
      show ?thesis
      proof (cases "imported w c ic t")
        case True
        have "imported w1 c ic t"
          using imported_kept[OF True l1 Cons.prems(2)] hc by simp
        then have "imported ?w2 c ic t"
          using False by (intro imported_kept[OF _ l2 Cons.prems(2)])
            (simp_all add: registerValue_providers_get)
        then show ?thesis by simp
      next
        case F2: False
        then have "t \<in> set ts" "shared w ic t"
          using Cons.prems(3) False by auto
        then show ?thesis
          using lower_shared[OF lower_trans[OF l1 l2] Cons.prems(2)] by simp
      qed
    qed
    then show ?thesis
      using Cons.IH[OF taken(3) Cons.prems(2)] by simp
  qed
qed

lemma import_modules_Cons_cases [consumes 1, case_names step]:
  assumes "import_modules n c (J # ms) w = Some (Inr u, w')"
  obtains u1 w1 where
    "import_exports n c (mod_container J) (mod_exports J) w = Some (Inr u1, w1)"
    "import_modules n c ms w1 = Some (Inr u, w')"
  using assms by (auto split: option.splits sum.splits prod.splits)

lemma import_modules_lower:
  "import_modules n c ms w = Some (Inr u, w') \<Longrightarrow> lower c w w'"
proof (induction ms arbitrary: w)
  case Nil
  then show ?case by (simp add: lower_refl)
next
  case (Cons J ms)
  from Cons.prems show ?case
  proof (cases rule: import_modules_Cons_cases)
    case (step u1 w1)
    then show ?thesis
      using Cons.IH[OF step(2)] import_exports_lower[OF step(1)] lower_trans by blast
  qed
qed

lemma import_modules_parent:
  "import_modules n c ms w = Some (Inr u, w') \<Longrightarrow> parent (heap w' x) = parent (heap w x)"
proof (induction ms arbitrary: w)
  case Nil
  then show ?case by simp
next
  case (Cons J ms)
  from Cons.prems show ?case
  proof (cases rule: import_modules_Cons_cases)
    case (step u1 w1)
    then show ?thesis
      using Cons.IH[OF step(2)] import_exports_parent[OF step(1), of x] by simp
  qed
qed

lemma import_modules_keeps:
  assumes "import_modules n c ms w = Some (Inr u, w')"
    and "\<forall>J \<in> set ms. mod_container J < c"
    and "\<forall>J \<in> set ms. t \<notin> set (mod_exports J)"
  shows "providers_get (providers (heap w' c)) t = providers_get (providers (heap w c)) t"
  using assms
proof (induction ms arbitrary: w)
  case Nil
  then show ?case by simp
next
  case (Cons J ms)
  from Cons.prems(1) show ?case
  proof (cases rule: import_modules_Cons_cases)
    case (step u1 w1)
    have "providers_get (providers (heap w1 c)) t = providers_get (providers (heap w c)) t"
      using import_exports_keeps[OF step(1)] Cons.prems(2,3) by simp
    then show ?thesis
      using Cons.IH[OF step(2)] Cons.prems(2,3) by simp
  qed
qed

lemma import_modules_has:
  assumes "import_modules n c ms w = Some (Inr u, w')"
    and "\<forall>J \<in> set ms. mod_container J < c"
    and "providers_has (providers (heap w c)) t
         \<or> (\<exists>J \<in> set ms. t \<in> set (mod_exports J) \<and> has w (mod_container J) t)"
  shows "providers_has (providers (heap w' c)) t"
  using assms
proof (induction ms arbitrary: w)
  case Nil
  then show ?case by simp
next
  case (Cons J ms)
  from Cons.prems(1) show ?case
  proof (cases rule: import_modules_Cons_cases)
    case (step u1 w1)
    have jc: "mod_container J < c"
      using Cons.prems(2) by simp
    have l1: "lower c w w1"
      using import_exports_lower[OF step(1)] .
    have "providers_has (providers (heap w1 c)) t
          \<or> (\<exists>K \<in> set ms. t \<in> set (mod_exports K) \<and> has w1 (mod_container K) t)"
    proof (cases "providers_has (providers (heap w c)) t
                  \<or> (t \<in> set (mod_exports J) \<and> has w (mod_container J) t)")
      case True
      then show ?thesis
        using import_exports_has[OF step(1) jc] by simp
    next
      case False
      then obtain K where "K \<in> set ms" "t \<in> set (mod_exports K)" "has w (mod_container K) t"
        using Cons.prems(3) by auto
      then show ?thesis
        using lower_has[OF l1, of "mod_container K" t] Cons.prems(2) by auto
    qed
    then show ?thesis
      using Cons.IH[OF step(2)] Cons.prems(2) by simp
  qed
qed

lemma import_modules_imported:
  assumes "import_modules n c ms w = Some (Inr u, w')"
    and "\<forall>J \<in> set ms. mod_container J < c" and "ic < c"
    and "\<forall>J \<in> set ms. t \<in> set (mod_exports J) \<longrightarrow> mod_container J = ic"
    and "imported w c ic t
         \<or> ((\<exists>J \<in> set ms. mod_container J = ic \<and> t \<in> set (mod_exports J)) \<and> shared w ic t)"
  shows "imported w' c ic t"
  using assms
proof (induction ms arbitrary: w)
  case Nil
  then show ?case by simp
next
  case (Cons J ms)
  from Cons.prems(1) show ?case
  proof (cases rule: import_modules_Cons_cases)
    case (step u1 w1)
    have jc: "mod_container J < c"
      using Cons.prems(2) by simp
    have l1: "lower c w w1"
      using import_exports_lower[OF step(1)] .
    have "imported w1 c ic t
          \<or> ((\<exists>K \<in> set ms. mod_container K = ic \<and> t \<in> set (mod_exports K)) \<and> shared w1 ic t)"
    proof (cases "t \<in> set (mod_exports J)")
      case True
      then have eq: "mod_container J = ic"
        using Cons.prems(4) by simp
      have "imported w c ic t \<or> (t \<in> set (mod_exports J) \<and> shared w ic t)"
        using Cons.prems(5) True by auto
      then have "imported w1 c ic t"
        using import_exports_imported[OF step(1)[unfolded eq] Cons.prems(3)] by simp
      then show ?thesis by simp
    next
      case False
      have k: "providers_get (providers (heap w1 c)) t = providers_get (providers (heap w c)) t"
        using import_exports_keeps[OF step(1) jc False] .
      show ?thesis
      proof (cases "imported w c ic t")
        case True
        then show ?thesis
          using imported_kept[OF True l1 Cons.prems(3) k] by simp
      next
        case F2: False
        then have "(\<exists>K \<in> set ms. mod_container K = ic \<and> t \<in> set (mod_exports K))"
          "shared w ic t"
          using Cons.prems(5) False by auto
        then show ?thesis
          using lower_shared[OF l1 Cons.prems(3)] by simp
      qed
    qed
    then show ?thesis
      using Cons.IH[OF step(2)] Cons.prems(2,3,4) by simp
  qed
qed

subsection \<open>The own providers and the controllers of a module\<close>

lemma registerMany_heap_other: "c' \<noteq> c \<Longrightarrow> heap (registerMany c ps w) c' = heap w c'"
  unfolding registerMany_def by (induction ps arbitrary: w) (simp_all add: register_heap_other)

lemma registerMany_parent: "parent (heap (registerMany c ps w) x) = parent (heap w x)"
  unfolding registerMany_def by (induction ps arbitrary: w) (simp_all add: register_parent)

lemma registerMany_lower: "lower c w (registerMany c ps w)"
  by (rule lower_below) (simp add: registerMany_heap_other)

lemma registerMany_keeps:
  assumes "t \<notin> provided_tokens ps"
  shows "providers_get (providers (heap (registerMany c ps w) c)) t
           = providers_get (providers (heap w c)) t"
proof -
  have "providers_get (rev ps) t = None"
    using assms by (auto simp: providers_get_def provided_tokens_def find_None_iff)
  then show ?thesis
    by (simp add: registerMany_providers_get)
qed

lemma registerMany_has:
  "providers_has (providers (heap w c)) t
     \<Longrightarrow> providers_has (providers (heap (registerMany c ps w) c)) t"
  by (simp add: providers_has_def registerMany_providers_get split: option.splits)

lemma frame_next_ref: "frame c w (w\<lparr>next_ref := k\<rparr>)"
proof -
  have "stable w (w\<lparr>next_ref := k\<rparr>)"
    by (rule stable_cong) simp_all
  then show ?thesis
    by (simp add: frame_def retains_def)
qed

lemma setup_gets_frame: "setup_gets n c ts w = Some (r, w') \<Longrightarrow> frame c w w'"
proof (induction ts arbitrary: w)
  case Nil
  then show ?case by (simp add: frame_refl)
next
  case (Cons t ts)
  from Cons.prems obtain r1 w1 where g: "get n c t w = Some (r1, w1)"
    by (auto split: option.splits)
  have f1: "frame c w w1"
    using get_frame[OF g] .
  show ?case
  proof (cases r1)
    case (Inl e)
    then show ?thesis using Cons.prems g f1 by simp
  next
    case (Inr v)
    then have "setup_gets n c ts w1 = Some (r, w')"
      using Cons.prems g by simp
    then show ?thesis
      using Cons.IH f1 frame_trans by blast
  qed
qed

lemma controller_factory_call_frame:
  assumes "controller_factory_call n cf c w = Some (r, w')"
  shows "frame c w w'"
proof -
  let ?w0 = "w\<lparr>next_ref := Suc (next_ref w)\<rparr>"
  from assms obtain r1 w1 where s: "setup_gets n c (cf_setup cf) ?w0 = Some (r1, w1)"
    by (auto simp: controller_factory_call_def Let_def split: option.splits)
  have f1: "frame c w w1"
    using frame_next_ref[of c w] setup_gets_frame[OF s] frame_trans by blast
  show ?thesis
  proof (cases r1)
    case (Inl e)
    then show ?thesis
      using assms s f1 by (simp add: controller_factory_call_def Let_def)
  next
    case (Inr v)
    then have "w' = w1\<lparr>next_ref := Suc (next_ref w1)\<rparr>"
      using assms s by (auto simp: controller_factory_call_def Let_def)
    then show ?thesis
      using f1 frame_next_ref[of c w1] frame_trans by blast
  qed
qed

lemma instantiate_controllers_frame:
  "instantiate_controllers n c cfs w = Some (r, w') \<Longrightarrow> frame c w w'"
proof (induction cfs arbitrary: w r w')
  case Nil
  then show ?case by (simp add: frame_refl)
next
  case (Cons cf cfs)
  from Cons.prems obtain r1 w1 where g: "controller_factory_call n cf c w = Some (r1, w1)"
    by (auto split: option.splits)
  have f1: "frame c w w1"
    using controller_factory_call_frame[OF g] .
  show ?case
  proof (cases r1)
    case (Inl e)
    then show ?thesis using Cons.prems g f1 by simp
  next
    case (Inr x)
    then obtain r2 where "instantiate_controllers n c cfs w1 = Some (r2, w')"
      using Cons.prems g by (auto split: option.splits sum.splits prod.splits)
    then show ?thesis
      using Cons.IH f1 frame_trans by blast
  qed
qed

lemma imported_frame:
  assumes "imported w c ic t" and "frame d w w'"
  shows "imported w' c ic t"
proof -
  from assms(1) obtain p where
    p: "providers_get (providers (heap w c)) t = Some p" "p = ValueProvider t None (useValue p)"
      "holds w ic t (useValue p)"
    by (auto simp: imported_def split: option.splits)
  have st: "stable w w'" "retains w w'"
    using assms(2) by (simp_all add: frame_def)
  have "lookupProvider w' c t = Some (p, c)"
    using lookupProvider_direct[OF p(1)] st(1) by (simp add: stable_def)
  then have "providers_get (providers (heap w' c)) t = Some p"
    using lookupProvider_owner by blast
  moreover have "holds w' ic t (useValue p)"
    using holds_preserved[OF p(3) st] .
  ultimately show ?thesis
    using p(2) by (simp add: imported_def)
qed


subsection \<open>What a module sees of its imports\<close>

lemma new_DIContainer_lower: "lower (next_container w) w (snd (new_DIContainer None False w))"
  by (rule lower_below) (simp add: new_DIContainer_def)

lemma has_direct:
  "parent (heap w c) = None \<Longrightarrow> has w c t = providers_has (providers (heap w c)) t"
  by (subst has.simps) simp

text \<open>
  C5, as the code has it. Let \<open>defineModule\<close> return the module \<open>m\<close>, and let the
  containers of the imported modules exist when it is called. (1) A token that an
  imported module exports and has a provider for has a provider in the container of
  \<open>m\<close>. (2) When, moreover, the provider in the imported module \<open>I\<close> is a value or
  a singleton, no own provider of \<open>m\<close> provides the token, and no module with another
  container is imported that exports it, then the container of \<open>I\<close> holds an
  instance, and \<open>get\<close> returns this very instance on the container of \<open>m\<close> and on
  the container of \<open>I\<close>, changing nothing. (3) A token that is not a constructor,
  that no own provider of \<open>m\<close> provides and that no imported module exports has no
  provider in the container of \<open>m\<close>.
\<close>

theorem imported_exports_visible:
  assumes "defineModule n config w = Some (Inr m, w')"
    and "\<forall>J \<in> set (cfg_imports config). mod_container J < next_container w"
  shows "(\<forall>I \<in> set (cfg_imports config). \<forall>t \<in> set (mod_exports I).
            has w (mod_container I) t \<longrightarrow> has w' (mod_container m) t)
       \<and> (\<forall>I \<in> set (cfg_imports config). \<forall>t \<in> set (mod_exports I).
            shared w (mod_container I) t \<and> t \<notin> provided_tokens (cfg_providers config)
            \<and> (\<forall>J \<in> set (cfg_imports config).
                  t \<in> set (mod_exports J) \<longrightarrow> mod_container J = mod_container I)
            \<longrightarrow> (\<exists>v. holds w' (mod_container I) t v
                  \<and> (\<forall>k. get (Suc k) (mod_container m) t w' = Some (Inr v, w')
                        \<and> get (Suc k) (mod_container I) t w' = Some (Inr v, w'))))
       \<and> (\<forall>t. \<not> isConstructorToken t \<and> t \<notin> provided_tokens (cfg_providers config)
              \<and> (\<forall>J \<in> set (cfg_imports config). t \<notin> set (mod_exports J))
            \<longrightarrow> \<not> has w' (mod_container m) t)"
proof -
  let ?c = "next_container w"
  let ?w0 = "snd (new_DIContainer None False w)"
  let ?ms = "cfg_imports config"
  from assms(1) obtain u w1 cs where
    i: "import_modules n ?c ?ms ?w0 = Some (Inr u, w1)" and
    k: "instantiate_controllers n ?c (cfg_controllers config)
          (registerMany ?c (cfg_providers config) w1) = Some (Inr cs, w')" and
    m: "m = ModuleDefinition cs ?ms (cfg_exports config) (cfg_providers config) ?c"
    by (auto simp: defineModule_def new_DIContainer_def
        split: option.splits sum.splits prod.splits)
  let ?w2 = "registerMany ?c (cfg_providers config) w1"
  have c: "mod_container m = ?c"
    using m by simp
  have old: "\<forall>J \<in> set ?ms. mod_container J < ?c"
    using assms(2) .
  have l0: "lower ?c w ?w0"
    by (rule new_DIContainer_lower)
  have l1: "lower ?c ?w0 w1"
    using import_modules_lower[OF i] .
  have l2: "lower ?c w1 ?w2"
    by (rule registerMany_lower)
  have f3: "frame ?c ?w2 w'"
    using instantiate_controllers_frame[OF k] .
  have par: "parent (heap w' ?c) = None"
  proof -
    have "parent (heap ?w0 ?c) = None"
      by (simp add: new_DIContainer_def)
    then have "parent (heap ?w2 ?c) = None"
      using import_modules_parent[OF i, of ?c] by (simp add: registerMany_parent)
    then show ?thesis
      using f3 by (simp add: frame_def stable_def)
  qed
  have p1: "has w' ?c t"
    if "I \<in> set ?ms" "t \<in> set (mod_exports I)" "has w (mod_container I) t" for I t
  proof -
    have "has ?w0 (mod_container I) t"
      using lower_has[OF l0 _ that(3)] old that(1) by simp
    then have "providers_has (providers (heap w1 ?c)) t"
      using import_modules_has[OF i old] that(1,2) by blast
    then have "providers_has (providers (heap ?w2 ?c)) t"
      by (rule registerMany_has)
    then have "providers_has (providers (heap w' ?c)) t"
      using f3 providers_has_stable by (simp add: frame_def) blast
    then show ?thesis
      by (simp add: has_direct[OF par])
  qed
  have p2: "\<exists>v. holds w' (mod_container I) t v
              \<and> (\<forall>k. get (Suc k) ?c t w' = Some (Inr v, w')
                    \<and> get (Suc k) (mod_container I) t w' = Some (Inr v, w'))"
    if "I \<in> set ?ms" "t \<in> set (mod_exports I)" "shared w (mod_container I) t"
      "t \<notin> provided_tokens (cfg_providers config)"
      "\<forall>J \<in> set ?ms. t \<in> set (mod_exports J) \<longrightarrow> mod_container J = mod_container I"
    for I t
  proof -
    let ?ic = "mod_container I"
    have ic: "?ic < ?c"
      using old that(1) by simp
    have "shared ?w0 ?ic t"
      using lower_shared[OF l0 ic that(3)] .
    then have "imported w1 ?c ?ic t"
      using import_modules_imported[OF i old ic that(5)] that(1,2) by blast
    then have "imported ?w2 ?c ?ic t"
      using l2 ic by (rule imported_kept) (simp add: registerMany_keeps[OF that(4)])
    then have "imported w' ?c ?ic t"
      using f3 by (rule imported_frame)
    then obtain p where
      p: "providers_get (providers (heap w' ?c)) t = Some p"
        "p = ValueProvider t None (useValue p)" "holds w' ?ic t (useValue p)"
      by (auto simp: imported_def split: option.splits)
    have "isValueProvider p"
      using p(2) by (cases p) (simp_all add: isValueProvider_def)
    then have "holds w' ?c t (useValue p)"
      using lookupProvider_direct[OF p(1)] by (simp add: holds_def)
    then show ?thesis
      using p(3) holds_get by blast
  qed
  have p3: "\<not> has w' ?c t"
    if "\<not> isConstructorToken t" "t \<notin> provided_tokens (cfg_providers config)"
      "\<forall>J \<in> set ?ms. t \<notin> set (mod_exports J)" for t
  proof -
    have "providers_get (providers (heap ?w0 ?c)) t = None"
      by (simp add: new_DIContainer_def providers_get_def)
    then have "providers_get (providers (heap w1 ?c)) t = None"
      using import_modules_keeps[OF i old that(3)] by simp
    then have "providers_get (providers (heap ?w2 ?c)) t = None"
      by (simp add: registerMany_keeps[OF that(2)])
    then have "providers_get (providers (heap w' ?c)) t = None"
      using f3 that(1) by (simp add: frame_def)
    then show ?thesis
      by (simp add: has_direct[OF par] providers_has_def)
  qed
  show ?thesis
    unfolding c using p1 p2 p3 by blast
qed

subsection \<open>A module that imports a singleton and a transient service\<close>

lemma root_container:
  assumes "parent (heap w c) = None"
  shows "lookupProvider w c t
           = (case providers_get (providers (heap w c)) t of
                Some p \<Rightarrow> Some (p, c) | None \<Rightarrow> None)"
  using assms by (subst lookupProvider.simps) (simp split: option.splits)

lemma world_shared_heap:
  "heap world_shared 0
     = \<lparr>providers = [db_provider, request_id_provider, secret_provider],
        instances = [TString ''SECRET'' \<mapsto> Given 0], parent = None, debug = False\<rparr>"
  by (simp add: world_shared_def registerMany_def register_def new_DIContainer_def
      world0_def providers_has_def providers_get_def Let_def db_provider_def
      request_id_provider_def secret_provider_def fun_eq_iff)

lemma world_shared_fields: "calls world_shared = []" "next_container world_shared = Suc 0"
  by (simp_all add: world_shared_def registerMany_def register_def new_DIContainer_def
      world0_def Let_def)

lemma defineModule_shared_config:
  "defineModule (Suc 0) shared_config world0 = Some (Inr shared_module, world_shared)"
  by (simp add: defineModule_def shared_config_def shared_module_def world_shared_def
      new_DIContainer_def world0_def)


lemma import_shared_module:
  "import_exports (Suc 0) (Suc 0) 0 [TString ''DB'', TString ''REQUEST_ID'']
     (snd (new_DIContainer None False world_shared)) = Some (Inr (), world_feature)"
proof -
  let ?DB = "TString ''DB''" and ?RQ = "TString ''REQUEST_ID''"
  let ?w0 = "snd (new_DIContainer None False world_shared)"
  let ?w1 = "instances_set 0 ?DB (Created 0) (?w0\<lparr>calls := [(db_provider, [])]\<rparr>)"
  let ?w2 = "registerValue (Suc 0) ?DB (Created 0) ?w1"
  let ?w3 = "?w2\<lparr>calls := [(db_provider, []), (request_id_provider, [])]\<rparr>"
  have h0: "heap ?w0 0 = heap world_shared 0" "calls ?w0 = []"
    by (simp_all add: new_DIContainer_def world_shared_fields)
  have pr: "provide db_provider = ?DB" "provide request_id_provider = ?RQ"
    by (simp_all add: db_provider_def request_id_provider_def)
  have l0: "lookupProvider ?w0 0 ?DB = Some (db_provider, 0)"
    by (simp add: root_container h0 world_shared_heap providers_get_def pr)
  have g1: "get (Suc 0) 0 ?DB ?w0 = Some (Inr (Created 0), ?w1)"
  proof -
    have "resolve (Suc 0) 0 ?DB [] ?w0 = Some (Inr (Created 0), [], ?w1)"
      by (subst resolve_leaf_factory[OF l0, where lt = None])
         (simp_all add: db_provider_def cached_singleton_def h0 world_shared_heap
            lifetime_of_def)
    then show ?thesis by (simp add: get_def del: resolve.simps)
  qed
  have h2: "heap ?w2 0 = (heap world_shared 0)\<lparr>instances :=
              [TString ''SECRET'' \<mapsto> Given 0, ?DB \<mapsto> Created 0]\<rparr>"
    "calls ?w2 = [(db_provider, [])]"
    by (simp_all add: registerValue_def register_def Let_def instances_set_def h0
        world_shared_heap)
  have l2: "lookupProvider ?w2 0 ?RQ = Some (request_id_provider, 0)"
    by (simp add: root_container h2 world_shared_heap providers_get_def pr)
  have g2: "get (Suc 0) 0 ?RQ ?w2 = Some (Inr (Created 1), ?w3)"
  proof -
    have "resolve (Suc 0) 0 ?RQ [] ?w2 = Some (Inr (Created 1), [], ?w3)"
      by (subst resolve_leaf_factory[OF l2, where lt = "Some Transient"])
         (simp_all add: request_id_provider_def cached_singleton_def h2 lifetime_of_def)
    then show ?thesis by (simp add: get_def del: resolve.simps)
  qed
  have e: "import_exports (Suc 0) (Suc 0) 0 [?DB, ?RQ] ?w0
             = Some (Inr (), registerValue (Suc 0) ?RQ (Created 1) ?w3)"
    using l0 l2 g1 g2 by (simp add: has_iff_lookup del: resolve.simps)
  have "world_feature = registerValue (Suc 0) ?RQ (Created 1) ?w3"
    by (simp add: world_feature_def)
  then show ?thesis
    using e by simp
qed

lemma defineModule_feature_config:
  "defineModule (Suc 0) feature_config world_shared = Some (Inr feature_module, world_feature)"
  using import_shared_module
  by (simp add: defineModule_def feature_config_def feature_module_def shared_module_def
      world_shared_fields registerMany_def new_DIContainer_def del: resolve.simps)

lemma defineModule_override_config:
  "defineModule (Suc 0) override_config world_shared
     = Some (Inr override_module, world_override)"
  using import_shared_module
  by (simp add: defineModule_def override_config_def override_module_def shared_module_def
      world_shared_fields world_override_def new_DIContainer_def del: resolve.simps)


lemma world_feature_heap:
  "heap world_feature 0
     = \<lparr>providers = [db_provider, request_id_provider, secret_provider],
        instances = [TString ''SECRET'' \<mapsto> Given 0, TString ''DB'' \<mapsto> Created 0],
        parent = None, debug = False\<rparr>"
  "heap world_feature (Suc 0)
     = \<lparr>providers = [ValueProvider (TString ''DB'') None (Created 0),
                     ValueProvider (TString ''REQUEST_ID'') None (Created 1)],
        instances = [TString ''DB'' \<mapsto> Created 0, TString ''REQUEST_ID'' \<mapsto> Created 1],
        parent = None, debug = False\<rparr>"
  "calls world_feature = [(db_provider, []), (request_id_provider, [])]"
  by (simp_all add: world_feature_def registerValue_def register_def Let_def
      instances_set_def new_DIContainer_def world_shared_fields world_shared_heap
      providers_has_def providers_get_def)

lemma world_feature_lookup:
  "lookupProvider world_feature 0 (TString ''DB'') = Some (db_provider, 0)"
  "lookupProvider world_feature 0 (TString ''REQUEST_ID'') = Some (request_id_provider, 0)"
  "lookupProvider world_feature (Suc 0) (TString ''REQUEST_ID'')
     = Some (ValueProvider (TString ''REQUEST_ID'') None (Created 1), Suc 0)"
  "lookupProvider world_feature (Suc 0) (TString ''SECRET'') = None"
  by (simp_all add: root_container world_feature_heap providers_get_def db_provider_def
      request_id_provider_def)

lemma world_shared_lookup:
  "lookupProvider world_shared 0 (TString ''DB'') = Some (db_provider, 0)"
  "lookupProvider world_shared 0 (TString ''REQUEST_ID'') = Some (request_id_provider, 0)"
  by (simp_all add: root_container world_shared_heap providers_get_def db_provider_def
      request_id_provider_def)

theorem imported_exports_visible_witness:
  "defineModule (Suc 0) feature_config world_shared = Some (Inr feature_module, world_feature)
   \<and> cfg_imports feature_config = [shared_module]
   \<and> mod_container shared_module < next_container world_shared
   \<and> mod_exports shared_module = [TString ''DB'', TString ''REQUEST_ID'']
   \<and> shared world_shared (mod_container shared_module) (TString ''DB'')
   \<and> has world_feature (mod_container feature_module) (TString ''DB'')
   \<and> holds world_feature (mod_container shared_module) (TString ''DB'') (Created 0)
   \<and> get (Suc 0) (mod_container feature_module) (TString ''DB'') world_feature
       = Some (Inr (Created 0), world_feature)
   \<and> get (Suc 0) (mod_container shared_module) (TString ''DB'') world_feature
       = Some (Inr (Created 0), world_feature)
   \<and> \<not> has world_feature (mod_container feature_module) (TString ''SECRET'')"
proof -
  let ?DB = "TString ''DB''"
  have old: "\<forall>J \<in> set (cfg_imports feature_config). mod_container J < next_container world_shared"
    by (simp add: feature_config_def shared_module_def world_shared_fields)
  note t = imported_exports_visible[OF defineModule_feature_config old]
  have i: "shared_module \<in> set (cfg_imports feature_config)"
    "?DB \<in> set (mod_exports shared_module)"
    by (simp_all add: feature_config_def shared_module_def)
  have sh: "shared world_shared (mod_container shared_module) ?DB"
    by (simp add: shared_def shared_module_def world_shared_lookup lifetime_of_def
        db_provider_def)
  have h: "has world_shared (mod_container shared_module) ?DB"
    using sh by (rule shared_has)
  have np: "?DB \<notin> provided_tokens (cfg_providers feature_config)"
    by (simp add: provided_tokens_def feature_config_def)
  have un: "\<forall>J \<in> set (cfg_imports feature_config).
              ?DB \<in> set (mod_exports J) \<longrightarrow> mod_container J = mod_container shared_module"
    by (simp add: feature_config_def)
  have a: "has world_feature (mod_container feature_module) ?DB"
    using t i h by blast
  obtain v where v: "holds world_feature (mod_container shared_module) ?DB v"
    "get (Suc 0) (mod_container feature_module) ?DB world_feature = Some (Inr v, world_feature)"
    "get (Suc 0) (mod_container shared_module) ?DB world_feature = Some (Inr v, world_feature)"
    using t i sh np un by blast
  have "v = Created 0"
    using v(1)
    by (simp add: holds_def shared_module_def world_feature_lookup isValueProvider_def
        db_provider_def cached_singleton_def lifetime_of_def world_feature_heap)
  moreover have "\<not> has world_feature (mod_container feature_module) (TString ''SECRET'')"
    using t by (simp add: isConstructorToken_def provided_tokens_def feature_config_def
        shared_module_def)
  ultimately show ?thesis
    using defineModule_feature_config a v sh
    by (simp add: feature_config_def shared_module_def world_shared_fields)
qed

lemma world_override_heap:
  "heap world_override 0 = heap world_feature 0"
  "providers (heap world_override (Suc 0))
     = [own_db, ValueProvider (TString ''REQUEST_ID'') None (Created 1), own_secret]"
  "parent (heap world_override (Suc 0)) = None"
  by (simp_all add: world_override_def registerMany_def register_def Let_def
      world_feature_heap providers_has_def providers_get_def own_db_def own_secret_def)

lemma world_override_lookup:
  "lookupProvider world_override (Suc 0) (TString ''DB'') = Some (own_db, Suc 0)"
  "lookupProvider world_override (Suc 0) (TString ''SECRET'') = Some (own_secret, Suc 0)"
  "lookupProvider world_override 0 (TString ''DB'') = Some (db_provider, 0)"
  by (simp_all add: root_container world_override_heap world_feature_heap providers_get_def
      own_db_def own_secret_def db_provider_def)

text \<open>
  C5 does not hold of two modules that import \<open>shared_module\<close>, which exports the
  singleton service DB and the transient service REQUEST_ID, has providers for both,
  and does not export its value SECRET. The first one, \<open>feature_module\<close>, has no
  providers of its own: on its container \<open>get\<close> returns for REQUEST_ID the
  instance that was created while importing, which the container of
  \<open>shared_module\<close> does not hold, and on that container \<open>get\<close> returns another
  one. The second one, \<open>override_module\<close>, provides DB and SECRET itself: on its
  container \<open>get\<close> returns its own value of DB, not the instance that the container
  of \<open>shared_module\<close> holds, and \<open>has\<close> is true of SECRET.
\<close>

theorem imported_instance_differs:
  "defineModule (Suc 0) shared_config world0 = Some (Inr shared_module, world_shared)
   \<and> defineModule (Suc 0) feature_config world_shared
       = Some (Inr feature_module, world_feature)
   \<and> cfg_imports feature_config = [shared_module]
   \<and> mod_exports shared_module = [TString ''DB'', TString ''REQUEST_ID'']
   \<and> has world_shared (mod_container shared_module) (TString ''REQUEST_ID'')
   \<and> get (Suc 0) (mod_container feature_module) (TString ''REQUEST_ID'') world_feature
       = Some (Inr (Created 1), world_feature)
   \<and> instances (heap world_feature (mod_container shared_module)) (TString ''REQUEST_ID'')
       = None
   \<and> get (Suc 0) (mod_container shared_module) (TString ''REQUEST_ID'') world_feature
       = Some (Inr (Created 2),
               world_feature\<lparr>calls := [(db_provider, []), (request_id_provider, []),
                                        (request_id_provider, [])]\<rparr>)
   \<and> defineModule (Suc 0) override_config world_shared
       = Some (Inr override_module, world_override)
   \<and> cfg_imports override_config = [shared_module]
   \<and> has world_shared (mod_container shared_module) (TString ''DB'')
   \<and> get (Suc 0) (mod_container override_module) (TString ''DB'') world_override
       = Some (Inr (Given 7), world_override)
   \<and> get (Suc 0) (mod_container shared_module) (TString ''DB'') world_override
       = Some (Inr (Created 0), world_override)
   \<and> mod_providers shared_module = [db_provider, request_id_provider, secret_provider]
   \<and> provide secret_provider = TString ''SECRET''
   \<and> has world_override (mod_container override_module) (TString ''SECRET'')"
proof -
  let ?RQ = "TString ''REQUEST_ID''" and ?DB = "TString ''DB''"
  have "resolve (Suc 0) (Suc 0) ?RQ [] world_feature = Some (Inr (Created 1), [], world_feature)"
    using resolve_value[OF world_feature_lookup(3), of 0 "[]"]
    by (simp add: isValueProvider_def del: resolve.simps)
  then have g1: "get (Suc 0) (Suc 0) ?RQ world_feature = Some (Inr (Created 1), world_feature)"
    by (simp add: get_def del: resolve.simps)
  have "resolve (Suc 0) 0 ?RQ [] world_feature
          = Some (Inr (Created 2), [],
                  world_feature\<lparr>calls := [(db_provider, []), (request_id_provider, []),
                                           (request_id_provider, [])]\<rparr>)"
    by (subst resolve_leaf_factory[OF world_feature_lookup(2), where lt = "Some Transient"])
       (simp_all add: request_id_provider_def cached_singleton_def lifetime_of_def
          world_feature_heap)
  then have g2: "get (Suc 0) 0 ?RQ world_feature
          = Some (Inr (Created 2),
                  world_feature\<lparr>calls := [(db_provider, []), (request_id_provider, []),
                                           (request_id_provider, [])]\<rparr>)"
    by (simp add: get_def del: resolve.simps)
  have "resolve (Suc 0) (Suc 0) ?DB [] world_override = Some (Inr (Given 7), [], world_override)"
    using resolve_value[OF world_override_lookup(1), of 0 "[]"]
    by (simp add: isValueProvider_def own_db_def del: resolve.simps)
  then have g3: "get (Suc 0) (Suc 0) ?DB world_override = Some (Inr (Given 7), world_override)"
    by (simp add: get_def del: resolve.simps)
  have nv: "\<not> isValueProvider db_provider"
    by (simp add: isValueProvider_def db_provider_def)
  have cs: "cached_singleton world_override 0 db_provider = Some (Created 0)"
    by (simp add: cached_singleton_def lifetime_of_def db_provider_def world_override_heap
        world_feature_heap)
  have "resolve (Suc 0) 0 ?DB [] world_override = Some (Inr (Created 0), [], world_override)"
    using resolve_cached[OF world_override_lookup(3) nv cs, of 0 "[]"] .
  then have g4: "get (Suc 0) 0 ?DB world_override = Some (Inr (Created 0), world_override)"
    by (simp add: get_def del: resolve.simps)
  show ?thesis
    using defineModule_shared_config defineModule_feature_config
      defineModule_override_config g1 g2 g3 g4
    by (simp add: feature_config_def shared_module_def feature_module_def has_iff_lookup
        world_shared_lookup world_feature_heap override_config_def override_module_def
        world_override_lookup secret_provider_def)
qed

end
